theory Spec2Isabelle
  imports Main "HOL-Library.Char_ord" "HOL-Library.List_Lexorder"
begin

section \<open>Byte strings, errors and outcomes\<close>

text \<open>
  Go strings and byte slices are sequences of bytes; both are modelled as \<open>string\<close>
  (a list of 8-bit characters). Conversions \<open>string(b)\<close> and \<open>[]byte(s)\<close> are the
  identity.
\<close>

type_synonym bytes = string

definition LF :: char where
  "LF = CHR 0x0A"

text \<open>
  Every error value the source builds with \<open>fmt.Errorf\<close> or \<open>errors.New\<close>, and the
  errors it passes through from the operating system and the remote service.
\<close>

datatype error =
  KeyNotFound string
  | UnexpectedRecordType string
  | IOError string
  | InvalidNotionID string
  | ResultCountMismatch nat nat
  | UpdateVersionsFailed nat error
  | UpdateVersionsCount nat nat
  | RemoteError string
  | CallbackError string

text \<open>
  A Go call either returns or panics (an explicit \<open>panic\<close>, a nil pointer dereference,
  an assignment to an entry of a nil map).
\<close>

datatype 'a outcome = Ret 'a | Panic string

section \<open>The record format of the cache files\<close>

text \<open>
  Modelled from the spec: the writer and reader of github.com/kjk/siser, an imported
  library that is not under src/. The spec describes a cache file as a concatenation of
  self-describing text records, each with a type tag and ordered key/value fields,
  framed so that arbitrary binary content is preserved when the file is read back
  record by record until end of file. The framing below is the library's: a header
  line \<open>size name\<close>, then \<open>size\<close> bytes of data; in the data a short printable value
  is written \<open>key: value\<close> on one line and any other value \<open>key:+length\<close>, a line
  break, the raw value and a line break.
\<close>

definition digit_char :: "nat \<Rightarrow> char" where
  "digit_char n = ''0123456789'' ! n"

definition is_digit :: "char \<Rightarrow> bool" where
  "is_digit c = (c \<in> set ''0123456789'')"

definition digit_val :: "char \<Rightarrow> nat" where
  "digit_val c = of_char c - 48"

text \<open>\<open>strconv.Itoa\<close> on a length (never negative).\<close>

fun Itoa :: "nat \<Rightarrow> string" where
  "Itoa n = (if n < 10 then [digit_char n] else Itoa (n div 10) @ [digit_char (n mod 10)])"

declare Itoa.simps [simp del]

text \<open>
  \<open>strconv.Atoi\<close> on the decimal digits the writer emits; any other text (also a text
  with a sign, which the writer never emits) is reported as malformed.
\<close>

definition Atoi :: "string \<Rightarrow> nat option" where
  "Atoi s = (if s \<noteq> [] \<and> list_all is_digit s
             then Some (foldl (\<lambda>a c. 10 * a + digit_val c) 0 s) else None)"

definition isASCII :: "string \<Rightarrow> bool" where
  "isASCII s = list_all (\<lambda>b. 32 \<le> (of_char b :: nat) \<and> (of_char b :: nat) \<le> 127) s"

definition needsLongFormat :: "string \<Rightarrow> bool" where
  "needsLongFormat s = (length s > 120 \<or> \<not> isASCII s)"

definition marshalKeyVal :: "string \<Rightarrow> string \<Rightarrow> bytes" where
  "marshalKeyVal key val =
     (if needsLongFormat val
      then key @ '':+'' @ Itoa (length val) @ [LF] @ val @ [LF]
      else key @ '': '' @ val @ [LF])"

text \<open>\<open>Record.Marshal\<close>: the entries in the order they were written.\<close>

definition Marshal :: "(string \<times> string) list \<Rightarrow> bytes" where
  "Marshal entries = concat (map (\<lambda>(k, v). marshalKeyVal k v) entries)"

text \<open>
  \<open>Writer.WriteRecord\<close> with \<open>NoTimestamp\<close> set: the header, the data, and a line break
  when the data does not end with one.
\<close>

definition WriteRecord :: "(string \<times> string) list \<Rightarrow> string \<Rightarrow> bytes" where
  "WriteRecord entries name =
     (let d = Marshal entries;
          hdr = Itoa (length d) @ (if name \<noteq> [] then '' '' @ name else []) @ [LF];
          needsNewline = (d \<noteq> [] \<and> last d \<noteq> LF)
      in hdr @ d @ (if needsNewline then [LF] else []))"

text \<open>\<open>bytes.IndexByte\<close> followed by slicing before and after the byte found.\<close>

fun split_at :: "char \<Rightarrow> string \<Rightarrow> (string \<times> string) option" where
  "split_at c [] = None"
| "split_at c (x # xs) =
     (if x = c then Some ([], xs)
      else (case split_at c xs of None \<Rightarrow> None | Some (a, b) \<Rightarrow> Some (x # a, b)))"

lemma split_at_length: "split_at c s = Some (a, b) \<Longrightarrow> length b < length s"
  by (induction s arbitrary: a) (auto split: if_splits option.splits)

text \<open>The reader skips one line break after a length-prefixed value, when there is one.\<close>

definition skip_newline :: "bytes \<Rightarrow> bytes" where
  "skip_newline d = (case d of [] \<Rightarrow> [] | c # r \<Rightarrow> if c = LF then r else d)"

lemma skip_newline_length: "length (skip_newline d) \<le> length d"
  by (simp add: skip_newline_def split: list.splits)

text \<open>\<open>UnmarshalRecord\<close>: \<open>None\<close> is the library's error return.\<close>

function UnmarshalRecord :: "bytes \<Rightarrow> (string \<times> string) list option" where
  "UnmarshalRecord d =
     (if d = [] then Some []
      else case split_at LF d of
        None \<Rightarrow> None
      | Some (line, rest) \<Rightarrow>
          (case split_at (CHR '':'') line of
            None \<Rightarrow> None
          | Some (key, val) \<Rightarrow>
              (case val of
                [] \<Rightarrow> None
              | kind # v \<Rightarrow>
                  if kind = CHR '' '' then
                    (case UnmarshalRecord rest of
                      None \<Rightarrow> None
                    | Some es \<Rightarrow> Some ((key, v) # es))
                  else if kind \<noteq> CHR ''+'' then None
                  else (case Atoi v of
                    None \<Rightarrow> None
                  | Some n \<Rightarrow>
                      if n > length rest then None
                      else (case UnmarshalRecord (skip_newline (drop n rest)) of
                        None \<Rightarrow> None
                      | Some es \<Rightarrow> Some ((key, take n rest) # es))))))"
  by pat_completeness auto
termination
proof (relation "measure length")
  show "wf (measure length)" by simp
next
  fix d :: bytes and x2 line rest
  assume "split_at LF d = Some x2" "(line, rest) = x2"
  then show "(rest, d) \<in> measure length"
    using split_at_length [of LF d line rest] by simp
next
  fix d :: bytes and x2 line rest and n :: nat
  assume "split_at LF d = Some x2" "(line, rest) = x2"
  then have "length rest < length d"
    using split_at_length [of LF d line rest] by simp
  moreover have "length (skip_newline (drop n rest)) \<le> length rest"
    using skip_newline_length [of "drop n rest"] by simp
  ultimately show "(skip_newline (drop n rest), d) \<in> measure length"
    by simp
qed

declare UnmarshalRecord.simps [simp del]

text \<open>
  \<open>Reader.ReadNextData\<close> with \<open>NoTimestamp\<close> set, on the bytes not yet read: the name,
  the data and the bytes left, or \<open>None\<close> when the reader stops (end of file or a
  malformed header).
\<close>

definition ReadNextData :: "bytes \<Rightarrow> (string \<times> bytes \<times> bytes) option" where
  "ReadNextData d =
     (case split_at LF d of
        None \<Rightarrow> None
      | Some (hdr, rest) \<Rightarrow>
          (let (dataSize, name) =
                 (case split_at (CHR '' '') hdr of None \<Rightarrow> (hdr, []) | Some (a, b) \<Rightarrow> (a, b))
           in (case Atoi dataSize of
                 None \<Rightarrow> None
               | Some n \<Rightarrow>
                   if length rest < n then None
                   else if n > 0 \<and> last (take n rest) \<noteq> LF then
                     (case drop n rest of
                        [] \<Rightarrow> None
                      | _ # r \<Rightarrow> Some (name, take n rest, r))
                   else Some (name, take n rest, drop n rest))))"

definition ReadNextRecord :: "bytes \<Rightarrow> (string \<times> (string \<times> string) list \<times> bytes) option" where
  "ReadNextRecord d =
     (case ReadNextData d of
        None \<Rightarrow> None
      | Some (name, data, rest) \<Rightarrow>
          (case UnmarshalRecord data of
             None \<Rightarrow> None
           | Some entries \<Rightarrow> Some (name, entries, rest)))"

lemma ReadNextData_length:
  assumes "ReadNextData d = Some (name, data, rest)"
  shows "length rest < length d"
proof -
  from assms obtain hdr rest0 where h: "split_at LF d = Some (hdr, rest0)"
    unfolding ReadNextData_def by (auto split: option.splits)
  then have l0: "length rest0 < length d"
    by (rule split_at_length)
  from assms h obtain n where "rest = drop n rest0 \<or> rest = tl (drop n rest0)"
    unfolding ReadNextData_def
    by (auto split: option.splits prod.splits if_splits list.splits) (metis list.sel(3))+
  then have "length rest \<le> length rest0"
    by auto
  with l0 show ?thesis by simp
qed

lemma ReadNextRecord_length:
  "ReadNextRecord d = Some (name, entries, rest) \<Longrightarrow> length rest < length d"
  unfolding ReadNextRecord_def
  by (auto split: option.splits prod.splits dest: ReadNextData_length)

text \<open>\<open>Record.Get\<close>: the value of the first entry with the key.\<close>

definition Get :: "(string \<times> string) list \<Rightarrow> string \<Rightarrow> string option" where
  "Get entries key = map_of entries key"

section \<open>Pretty-printing of JSON responses\<close>

text \<open>
  Modelled from the spec: \<open>PrettyPrintJS\<close> is not under src/. The spec says that a
  response body is stored pretty-printed when it is JSON-parseable and verbatim
  otherwise. The model accepts a text by the JSON grammar (objects, arrays, strings
  with escapes, numbers, \<open>true\<close>, \<open>false\<close>, \<open>null\<close>) and writes it again with one member
  or element per line, two spaces of indentation per nesting level and \<open>: \<close> after a
  key; scalars and the contents of strings are carried over as written.
\<close>

datatype jtok = TPunct char | TStr string | TLit string

definition is_ws :: "char \<Rightarrow> bool" where
  "is_ws c = (c \<in> set [CHR '' '', CHR 0x09, CHR 0x0A, CHR 0x0D])"

definition is_punct :: "char \<Rightarrow> bool" where
  "is_punct c = (c \<in> set ''{}[],:'')"

fun lex :: "string \<Rightarrow> jtok list option"
  and lex_str :: "string \<Rightarrow> string \<Rightarrow> jtok list option"
  and lex_lit :: "string \<Rightarrow> string \<Rightarrow> jtok list option" where
  "lex [] = Some []"
| "lex (c # cs) =
     (if is_ws c then lex cs
      else if c = CHR 0x22 then lex_str [] cs
      else if is_punct c then map_option ((#) (TPunct c)) (lex cs)
      else lex_lit [c] cs)"
| "lex_str acc [] = None"
| "lex_str acc [c] = (if c = CHR 0x22 then Some [TStr (rev acc)] else None)"
| "lex_str acc (c # d # ds) =
     (if c = CHR 0x22 then map_option ((#) (TStr (rev acc))) (lex (d # ds))
      else if c = CHR 0x5C then lex_str (d # c # acc) ds
      else lex_str (c # acc) (d # ds))"
| "lex_lit acc [] = Some [TLit (rev acc)]"
| "lex_lit acc (c # cs) =
     (if is_ws c \<or> is_punct c \<or> c = CHR 0x22
      then map_option ((#) (TLit (rev acc))) (lex (c # cs))
      else lex_lit (c # acc) cs)"

text \<open>The contents of a string token: no control character, and only JSON's escapes.\<close>

definition is_hex :: "char \<Rightarrow> bool" where
  "is_hex c = (c \<in> set ''0123456789abcdefABCDEF'')"

fun str_ok :: "string \<Rightarrow> bool" where
  "str_ok [] = True"
| "str_ok [c] = (c \<noteq> CHR 0x5C \<and> (32::nat) \<le> of_char c)"
| "str_ok (c # d # ds) =
     (if c = CHR 0x5C then
        (if d = CHR ''u'' then length ds \<ge> 4 \<and> list_all is_hex (take 4 ds) \<and> str_ok (drop 4 ds)
         else d \<in> set [CHR 0x22, CHR 0x5C, CHR ''/'', CHR ''b'', CHR ''f'', CHR ''n'', CHR ''r'', CHR ''t'']
              \<and> str_ok ds)
      else (32::nat) \<le> of_char c \<and> str_ok (d # ds))"

definition exp_ok :: "string \<Rightarrow> bool" where
  "exp_ok r =
     (case r of
        [] \<Rightarrow> True
      | c # r1 \<Rightarrow>
          (c = CHR ''e'' \<or> c = CHR ''E'') \<and>
          (let r2 = (case r1 of [] \<Rightarrow> [] | s # t \<Rightarrow> if s = CHR ''+'' \<or> s = CHR ''-'' then t else r1)
           in r2 \<noteq> [] \<and> list_all is_digit r2))"

definition frac_ok :: "string \<Rightarrow> bool" where
  "frac_ok r =
     (case r of
        [] \<Rightarrow> True
      | c # r1 \<Rightarrow>
          if c = CHR ''.'' then takeWhile is_digit r1 \<noteq> [] \<and> exp_ok (dropWhile is_digit r1)
          else exp_ok r)"

definition number_ok :: "string \<Rightarrow> bool" where
  "number_ok s =
     (let s1 = (case s of [] \<Rightarrow> [] | c # t \<Rightarrow> if c = CHR ''-'' then t else s);
          ds = takeWhile is_digit s1
      in ds \<noteq> [] \<and> (ds = ''0'' \<or> hd ds \<noteq> CHR ''0'') \<and> frac_ok (dropWhile is_digit s1))"

definition lit_ok :: "string \<Rightarrow> bool" where
  "lit_ok l = (l = ''true'' \<or> l = ''false'' \<or> l = ''null'' \<or> number_ok l)"

text \<open>
  The grammar as a pushdown recogniser over the tokens: the stack holds \<open>True\<close> for an
  open object and \<open>False\<close> for an open array.
\<close>

datatype phase = PValue | PValOrClose | PAfter | PKeyOrClose | PKey | PColon

fun json_valid :: "phase \<Rightarrow> bool list \<Rightarrow> jtok list \<Rightarrow> bool" where
  "json_valid ph st [] = (ph = PAfter \<and> st = [])"
| "json_valid PValue st (TStr s # ts) = (str_ok s \<and> json_valid PAfter st ts)"
| "json_valid PValue st (TLit l # ts) = (lit_ok l \<and> json_valid PAfter st ts)"
| "json_valid PValue st (TPunct c # ts) =
     (if c = CHR ''{'' then json_valid PKeyOrClose (True # st) ts
      else if c = CHR ''['' then json_valid PValOrClose (False # st) ts
      else False)"
| "json_valid PValOrClose st (TStr s # ts) = (str_ok s \<and> json_valid PAfter st ts)"
| "json_valid PValOrClose st (TLit l # ts) = (lit_ok l \<and> json_valid PAfter st ts)"
| "json_valid PValOrClose st (TPunct c # ts) =
     (if c = CHR ''{'' then json_valid PKeyOrClose (True # st) ts
      else if c = CHR ''['' then json_valid PValOrClose (False # st) ts
      else if c = CHR '']'' then json_valid PAfter (tl st) ts
      else False)"
| "json_valid PAfter st (TPunct c # ts) =
     (case st of
        [] \<Rightarrow> False
      | isobj # st' \<Rightarrow>
          if c = CHR '','' then json_valid (if isobj then PKey else PValue) st ts
          else if c = (if isobj then CHR ''}'' else CHR '']'') then json_valid PAfter st' ts
          else False)"
| "json_valid PAfter st (_ # ts) = False"
| "json_valid PKeyOrClose st (TStr s # ts) = (str_ok s \<and> json_valid PColon st ts)"
| "json_valid PKeyOrClose st (TPunct c # ts) = (c = CHR ''}'' \<and> json_valid PAfter (tl st) ts)"
| "json_valid PKeyOrClose st (_ # ts) = False"
| "json_valid PKey st (TStr s # ts) = (str_ok s \<and> json_valid PColon st ts)"
| "json_valid PKey st (_ # ts) = False"
| "json_valid PColon st (TPunct c # ts) = (c = CHR '':'' \<and> json_valid PValue st ts)"
| "json_valid PColon st (_ # ts) = False"

definition newline_indent :: "nat \<Rightarrow> string" where
  "newline_indent depth = LF # replicate (2 * depth) (CHR '' '')"

fun render :: "nat \<Rightarrow> jtok list \<Rightarrow> string" where
  "render depth [] = []"
| "render depth (TStr s # ts) = [CHR 0x22] @ s @ [CHR 0x22] @ render depth ts"
| "render depth (TLit l # ts) = l @ render depth ts"
| "render depth [TPunct c] =
     (if c = CHR ''}'' \<or> c = CHR '']'' then newline_indent (depth - 1) @ [c] else [c])"
| "render depth (TPunct c # t # ts) =
     (if c = CHR ''{'' \<or> c = CHR ''['' then
        (if t = TPunct (CHR ''}'') \<or> t = TPunct (CHR '']'') then
           (case t of TPunct c' \<Rightarrow> [c, c'] @ render depth ts | _ \<Rightarrow> [])
         else [c] @ newline_indent (depth + 1) @ render (depth + 1) (t # ts))
      else if c = CHR ''}'' \<or> c = CHR '']'' then
        newline_indent (depth - 1) @ [c] @ render (depth - 1) (t # ts)
      else if c = CHR '','' then [c] @ newline_indent depth @ render depth (t # ts)
      else [c, CHR '' ''] @ render depth (t # ts))"

definition PrettyPrintJS :: "bytes \<Rightarrow> bytes" where
  "PrettyPrintJS js =
     (case lex js of
        None \<Rightarrow> js
      | Some toks \<Rightarrow> if json_valid PValue [] toks then render 0 toks else js)"

section \<open>Cache records and their serialization\<close>

record RequestCacheEntry =
  Method :: string
  URL :: string
  Body :: bytes
  Response :: bytes

definition recCacheName :: string where
  "recCacheName = ''noahttpcache''"

text \<open>
  \<open>recGetKey\<close>: the error cell \<open>pErr\<close> is passed in and returned. Once it holds an
  error, every later call returns the empty string and leaves it alone.
\<close>

definition recGetKey ::
  "(string \<times> string) list \<Rightarrow> string \<Rightarrow> error option \<Rightarrow> string \<times> error option" where
  "recGetKey r key pErr =
     (if pErr \<noteq> None then ([], pErr)
      else (case Get r key of
              None \<Rightarrow> ([], Some (KeyNotFound key))
            | Some v \<Rightarrow> (v, None)))"

definition recGetKeyBytes ::
  "(string \<times> string) list \<Rightarrow> string \<Rightarrow> error option \<Rightarrow> bytes \<times> error option" where
  "recGetKeyBytes r key pErr = recGetKey r key pErr"

text \<open>
  \<open>serializeCacheEntry\<close>, with the pretty-printer as a parameter. Writing to the
  in-memory buffer cannot fail, so the error branch of the source is never taken and
  the result is always \<open>Inr\<close>.
\<close>

definition serializeCacheEntryWith ::
  "(bytes \<Rightarrow> bytes) \<Rightarrow> RequestCacheEntry \<Rightarrow> error + bytes" where
  "serializeCacheEntryWith pp rr =
     Inr (WriteRecord
            [(''Method'', Method rr), (''URL'', URL rr), (''Body'', Body rr),
             (''Response'', pp (Response rr))]
            recCacheName)"

definition serializeCacheEntry :: "RequestCacheEntry \<Rightarrow> error + bytes" where
  "serializeCacheEntry rr = serializeCacheEntryWith PrettyPrintJS rr"

text \<open>
  The loop of \<open>deserializeCacheEntry\<close> on the bytes not yet read. The error of a failed
  read is never consulted by the source: the loop just ends, and only the error cell
  of \<open>recGetKey\<close> decides between an error and the records read so far.
\<close>

function deserializeLoop ::
  "bytes \<Rightarrow> error option \<Rightarrow> RequestCacheEntry list \<Rightarrow> error + RequestCacheEntry list" where
  "deserializeLoop d err res =
     (case ReadNextRecord d of
        None \<Rightarrow> (case err of Some e \<Rightarrow> Inl e | None \<Rightarrow> Inr res)
      | Some (name, r, rest) \<Rightarrow>
          if name \<noteq> recCacheName then Inl (UnexpectedRecordType name)
          else (let (m, err1) = recGetKey r ''Method'' err;
                    (u, err2) = recGetKey r ''URL'' err1;
                    (b, err3) = recGetKeyBytes r ''Body'' err2;
                    (rs, err4) = recGetKeyBytes r ''Response'' err3
                in deserializeLoop rest err4
                     (res @ [\<lparr>Method = m, URL = u, Body = b, Response = rs\<rparr>])))"
  by pat_completeness auto
termination
proof (relation "measure (\<lambda>(d, err, res). length d)")
  show "wf (measure (\<lambda>(d, err, res). length d))" by simp
next
  fix d :: bytes and err :: "error option" and res :: "RequestCacheEntry list"
    and x2 name y r rest x xa ya xb yb xc yc xd yd
  assume "ReadNextRecord d = Some x2" "(name, y) = x2" "(r, rest) = y"
  then show "((rest, yd, res @ [\<lparr>Method = xa, URL = xb, Body = xc, Response = xd\<rparr>]), d, err, res)
             \<in> measure (\<lambda>(d, err, res). length d)"
    using ReadNextRecord_length [of d name r rest] by simp
qed

declare deserializeLoop.simps [simp del]

definition deserializeCacheEntry :: "bytes \<Rightarrow> error + RequestCacheEntry list" where
  "deserializeCacheEntry d = deserializeLoop d None []"

text \<open>
  The loop of \<open>writeCacheForCurrPage\<close> that serializes the pending records one after
  the other into one buffer, stopping at the first error.
\<close>

fun serializeEntriesWith ::
  "(bytes \<Rightarrow> bytes) \<Rightarrow> RequestCacheEntry list \<Rightarrow> bytes \<Rightarrow> error + bytes" where
  "serializeEntriesWith pp [] buf = Inr buf"
| "serializeEntriesWith pp (rr # rrs) buf =
     (case serializeCacheEntryWith pp rr of
        Inl e \<Rightarrow> Inl e
      | Inr d \<Rightarrow> serializeEntriesWith pp rrs (buf @ d))"

definition serializeEntries :: "RequestCacheEntry list \<Rightarrow> bytes \<Rightarrow> error + bytes" where
  "serializeEntries rrs buf = serializeEntriesWith PrettyPrintJS rrs buf"

section \<open>The environment: file system and remote service\<close>

text \<open>
  The operating system and the network are inputs of the model. A write can fail
  before the file is opened (the old content stays) or after some bytes were written
  (the file holds a prefix of the data); a removal can fail; the remote service answers
  a live request as a function of the requests sent before it. \<open>liveLog\<close> records every
  request that went to the network.
\<close>

datatype write_fault = OpenFails | ShortWrite nat

record env =
  files :: "string \<rightharpoonup> bytes"
  listing :: "string \<Rightarrow> (string \<times> bool) list"
  mkdirFault :: "string \<Rightarrow> error option"
  readDirFault :: "string \<Rightarrow> error option"
  readFault :: "string \<Rightarrow> error option"
  writeFault :: "string \<Rightarrow> (write_fault \<times> error) option"
  removeFault :: "string \<Rightarrow> bool"
  net :: "(string \<times> bytes) list \<Rightarrow> string \<Rightarrow> bytes \<Rightarrow> error + bytes"
  liveLog :: "(string \<times> bytes) list"

text \<open>\<open>filepath.Join\<close> of a directory and a file name.\<close>

definition Join :: "string \<Rightarrow> string \<Rightarrow> string" where
  "Join dir name = dir @ ''/'' @ name"

text \<open>\<open>ioutil.WriteFile\<close>: create or truncate the file, write the data.\<close>

definition WriteFile :: "env \<Rightarrow> string \<Rightarrow> bytes \<Rightarrow> error option \<times> env" where
  "WriteFile e path d =
     (case writeFault e path of
        None \<Rightarrow> (None, e\<lparr>files := (files e)(path \<mapsto> d)\<rparr>)
      | Some (OpenFails, err) \<Rightarrow> (Some err, e)
      | Some (ShortWrite n, err) \<Rightarrow> (Some err, e\<lparr>files := (files e)(path \<mapsto> take n d)\<rparr>))"

text \<open>\<open>os.Remove\<close>, whose error the source ignores.\<close>

definition Remove :: "env \<Rightarrow> string \<Rightarrow> env" where
  "Remove e path = (if removeFault e path then e else e\<lparr>files := (files e)(path := None)\<rparr>)"

text \<open>\<open>ioutil.ReadFile\<close>.\<close>

definition ReadFile :: "env \<Rightarrow> string \<Rightarrow> error + bytes" where
  "ReadFile e path =
     (case readFault e path of
        Some err \<Rightarrow> Inl err
      | None \<Rightarrow> (case files e path of None \<Rightarrow> Inl (IOError path) | Some d \<Rightarrow> Inr d))"

text \<open>\<open>Client.doPostInternal\<close>: the live request.\<close>

definition doPostInternal :: "env \<Rightarrow> string \<Rightarrow> bytes \<Rightarrow> (error + bytes) \<times> env" where
  "doPostInternal e uri body =
     (net e (liveLog e) uri body, e\<lparr>liveLog := liveLog e @ [(uri, body)]\<rparr>)"

section \<open>The caching client\<close>

record NotionID =
  DashID :: string
  NoDashID :: string

text \<open>
  The value of \<open>Client.httpPostOverride\<close>: a function the user installed, or the method
  value \<open>c.doPostMaybeCached\<close> that \<open>DownloadPage\<close> installs.
\<close>

datatype post_override = UserOverride "string \<Rightarrow> bytes \<Rightarrow> error + bytes" | DoPostMaybeCached

text \<open>
  The fields of \<open>CachingClient\<close> that the functions below read or write, and the
  \<open>httpPostOverride\<close> field of the client it points to. A Go map that was never made is
  nil: it reads as empty, and an assignment to one of its entries panics. Only
  \<open>IdToPageLatestVersion\<close> can be nil when it is written, so only that map is an option.
  The counters are Go ints, far from their bounds: they are modelled as integers.
\<close>

record CachingClient =
  CacheDir :: string
  httpPostOverride :: "post_override option"
  RedownloadNewerVersions :: bool
  NoReadCache :: bool
  pageIDToEntries :: "string \<rightharpoonup> RequestCacheEntry list"
  currPageID :: "NotionID option"
  currPageRequests :: "RequestCacheEntry list"
  IdToPageLatestVersion :: "(string \<rightharpoonup> int) option"
  didCheckVersionsOfCachedPages :: bool
  RequestsFromCache :: int
  RequestsNotFromCache :: int
  RequestsWrittenToCache :: int

text \<open>The scan of \<open>tryReadFromCache\<close>: the response of the first matching record.\<close>

fun findEntry :: "RequestCacheEntry list \<Rightarrow> string \<Rightarrow> string \<Rightarrow> bytes \<Rightarrow> bytes \<times> bool" where
  "findEntry [] method uri body = ([], False)"
| "findEntry (r # rs) method uri body =
     (if Method r \<noteq> method then findEntry rs method uri body
      else if URL r \<noteq> uri then findEntry rs method uri body
      else if Body r \<noteq> body then findEntry rs method uri body
      else (Response r, True))"

definition tryReadFromCache ::
  "CachingClient \<Rightarrow> string \<Rightarrow> string \<Rightarrow> bytes \<Rightarrow> (bytes \<times> bool) outcome" where
  "tryReadFromCache c method uri body =
     (if NoReadCache c then Ret ([], False)
      else (case currPageID c of
              None \<Rightarrow> Panic ''nil pointer dereference''
            | Some nid \<Rightarrow>
                (let pageRequests =
                       (case pageIDToEntries c (NoDashID nid) of None \<Rightarrow> [] | Some rs \<Rightarrow> rs)
                 in Ret (findEntry pageRequests method uri body))))"

definition writeCacheForCurrPage ::
  "CachingClient \<Rightarrow> env \<Rightarrow> error option outcome \<times> CachingClient \<times> env" where
  "writeCacheForCurrPage c e =
     (if length (currPageRequests c) = 0 then (Ret None, c, e)
      else (case serializeEntries (currPageRequests c) [] of
              Inl err \<Rightarrow> (Ret (Some err), c, e)
            | Inr buf \<Rightarrow>
                (case currPageID c of
                   None \<Rightarrow> (Panic ''nil pointer dereference'', c, e)
                 | Some nid \<Rightarrow>
                     (let fileName = NoDashID nid @ ''.txt'';
                          path = Join (CacheDir c) fileName
                      in (case WriteFile e path buf of
                            (Some err, e1) \<Rightarrow> (Ret (Some err), c, Remove e1 path)
                          | (None, e1) \<Rightarrow>
                              (Ret None,
                               c\<lparr>RequestsWrittenToCache :=
                                    RequestsWrittenToCache c + int (length (currPageRequests c)),
                                  currPageRequests := []\<rparr>,
                               e1))))))"

definition cacheRequest ::
  "CachingClient \<Rightarrow> string \<Rightarrow> string \<Rightarrow> bytes \<Rightarrow> bytes \<Rightarrow> CachingClient" where
  "cacheRequest c method uri body response =
     (if currPageID c = None then c
      else c\<lparr>currPageRequests :=
                 currPageRequests c @
                 [\<lparr>Method = method, URL = uri, Body = body, Response = response\<rparr>]\<rparr>)"

definition doPostMaybeCached ::
  "CachingClient \<Rightarrow> env \<Rightarrow> string \<Rightarrow> bytes \<Rightarrow> (error + bytes) outcome \<times> CachingClient \<times> env" where
  "doPostMaybeCached c e uri body =
     (case tryReadFromCache c ''POST'' uri body of
        Panic msg \<Rightarrow> (Panic msg, c, e)
      | Ret (d, ok) \<Rightarrow>
          if ok then (Ret (Inr d), c\<lparr>RequestsFromCache := RequestsFromCache c + 1\<rparr>, e)
          else (case doPostInternal e uri body of
                  (Inl err, e1) \<Rightarrow> (Ret (Inl err), c, e1)
                | (Inr d1, e1) \<Rightarrow>
                    (Ret (Inr d1),
                     cacheRequest (c\<lparr>RequestsNotFromCache := RequestsNotFromCache c + 1\<rparr>)
                       ''POST'' uri body d1,
                     e1)))"

section \<open>Version queries and the freshness check\<close>

text \<open>
  Modelled from the spec: the types \<open>Block\<close> and \<open>Page\<close> are declared outside src/. Of a
  block the source reads its id and version; of a page, says the spec, only its
  identity, its root version and its list of child identities are consumed
  (\<open>p.ID\<close>, \<open>p.Root().Version\<close>, \<open>p.GetSubPages()\<close>).
\<close>

record Block =
  ID :: string
  Version :: int

record Page =
  PageID :: string
  RootVersion :: int
  SubPages :: "string list"

text \<open>
  The loop of \<open>getVersionsForPages\<close> over the results, \<open>i\<close> being the position reached.
  A result without a block (\<open>None\<close>) is a page that is not visible or was deleted.
  The helpers \<open>normalizeIDS\<close> and \<open>isIDEqual\<close> and the remote call \<open>GetBlockRecords\<close>
  are not under src/: they are parameters. \<open>normalizeIDS\<close> rewrites the ids of the
  caller's slice in place, which keeps its length; its effect on one id is the
  parameter \<open>normalizeID\<close>.
\<close>

fun versionsLoop ::
  "(string \<Rightarrow> string \<Rightarrow> bool) \<Rightarrow> string list \<Rightarrow> nat \<Rightarrow> Block option list \<Rightarrow> int list
   \<Rightarrow> (error + int list) outcome" where
  "versionsLoop isIDEqual ids i [] versions = Ret (Inr versions)"
| "versionsLoop isIDEqual ids i (rec # results) versions =
     (case rec of
        None \<Rightarrow> versionsLoop isIDEqual ids (i + 1) results (versions @ [0])
      | Some b \<Rightarrow>
          if \<not> isIDEqual (ids ! i) (ID b)
          then Panic (''got result in the wrong order, ids[i]: '' @ ids ! 0 @ '', id: '' @ ID b)
          else versionsLoop isIDEqual ids (i + 1) results (versions @ [Version b]))"

text \<open>
  \<open>getVersionsForPages\<close> normalizes the caller's slice in place: the normalized ids are
  returned with the result.
\<close>

definition normalizeIDS :: "(string \<Rightarrow> string) \<Rightarrow> string list \<Rightarrow> string list" where
  "normalizeIDS normalizeID ids = map normalizeID ids"

definition getVersionsForPages ::
  "(string \<Rightarrow> string) \<Rightarrow> (string \<Rightarrow> string \<Rightarrow> bool)
   \<Rightarrow> (string list \<Rightarrow> error + Block option list)
   \<Rightarrow> string list \<Rightarrow> string list \<times> (error + int list) outcome" where
  "getVersionsForPages normalizeID isIDEqual GetBlockRecords ids0 =
     (let ids = normalizeIDS normalizeID ids0
      in (ids,
          (case GetBlockRecords ids of
             Inl err \<Rightarrow> Ret (Inl err)
           | Inr results \<Rightarrow>
               if length results \<noteq> length ids
               then Ret (Inl (ResultCountMismatch (length results) (length ids)))
               else versionsLoop isIDEqual ids 0 results [])))"

text \<open>The assignments \<open>d.IdToPageLatestVersion[id] = ver\<close> of \<open>updateVersionsForPages\<close>.\<close>

fun storeVersions ::
  "(string \<Rightarrow> string) \<Rightarrow> string list \<Rightarrow> int list \<Rightarrow> (string \<rightharpoonup> int) option
   \<Rightarrow> (string \<rightharpoonup> int) option outcome" where
  "storeVersions ToNoDashID (pid # ids) (ver # versions) m =
     (case m of
        None \<Rightarrow> Panic ''assignment to entry in nil map''
      | Some f \<Rightarrow> storeVersions ToNoDashID ids versions (Some (f(ToNoDashID pid \<mapsto> ver))))"
| "storeVersions ToNoDashID ids versions m = Ret m"

definition updateVersionsForPages ::
  "(string \<Rightarrow> string) \<Rightarrow> (string \<Rightarrow> string) \<Rightarrow> (string \<Rightarrow> string \<Rightarrow> bool)
   \<Rightarrow> (string list \<Rightarrow> error + Block option list)
   \<Rightarrow> CachingClient \<Rightarrow> string list \<Rightarrow> error option outcome \<times> CachingClient" where
  "updateVersionsForPages ToNoDashID normalizeID isIDEqual GetBlockRecords d ids0 =
     (if length ids0 = 0 then (Ret None, d)
      else (case getVersionsForPages normalizeID isIDEqual GetBlockRecords (sort ids0) of
              (ids, Panic msg) \<Rightarrow> (Panic msg, d)
            | (ids, Ret (Inl err)) \<Rightarrow> (Ret (Some (UpdateVersionsFailed (length ids) err)), d)
            | (ids, Ret (Inr versions)) \<Rightarrow>
                if length ids \<noteq> length versions
                then (Ret (Some (UpdateVersionsCount (length ids) (length versions))), d)
                else (case storeVersions ToNoDashID ids versions (IdToPageLatestVersion d) of
                        Panic msg \<Rightarrow> (Panic msg, d)
                      | Ret m \<Rightarrow> (Ret None, d\<lparr>IdToPageLatestVersion := m\<rparr>))))"

text \<open>A read of \<open>d.IdToPageLatestVersion[pageID]\<close> with its presence flag.\<close>

definition latestVersion :: "CachingClient \<Rightarrow> string \<Rightarrow> int option" where
  "latestVersion d pageID =
     (case IdToPageLatestVersion d of None \<Rightarrow> None | Some f \<Rightarrow> f pageID)"

definition canReturnCachedPage ::
  "(string \<Rightarrow> string) \<Rightarrow> (string \<Rightarrow> string) \<Rightarrow> (string \<Rightarrow> string \<Rightarrow> bool)
   \<Rightarrow> (string list \<Rightarrow> error + Block option list)
   \<Rightarrow> CachingClient \<Rightarrow> Page option \<Rightarrow> bool outcome \<times> CachingClient" where
  "canReturnCachedPage ToNoDashID normalizeID isIDEqual GetBlockRecords d p =
     (case p of
        None \<Rightarrow> (Ret False, d)
      | Some pg \<Rightarrow>
          if \<not> RedownloadNewerVersions d then (Ret True, d)
          else (let pageID = ToNoDashID (PageID pg);
                    compare = (\<lambda>d1. let newestVer = (case latestVersion d1 pageID of
                                                         None \<Rightarrow> 0 | Some v \<Rightarrow> v);
                                         pageVer = RootVersion pg
                                     in (Ret (pageVer \<ge> newestVer), d1))
                in if latestVersion d pageID = None then
                     (case updateVersionsForPages ToNoDashID normalizeID isIDEqual
                             GetBlockRecords d [pageID] of
                        (Panic msg, d1) \<Rightarrow> (Panic msg, d1)
                      | (Ret (Some err), d1) \<Rightarrow> (Ret False, d1)
                      | (Ret None, d1) \<Rightarrow> compare d1)
                   else compare d))"

text \<open>
  Modelled from the spec: the identity normalizer (\<open>NewNotionID\<close>, \<open>ToNoDashID\<close>,
  \<open>ToDashID\<close>, \<open>isIDEqual\<close>) is not under src/. The spec says that it
  validates free-form strings as legal identities, produces the canonical dashed and
  no-dash forms, and that equality is defined on the no-dash form. The instance below
  takes a legal identity to be 32 hexadecimal digits once the dashes are removed, and
  the dashed form to group them 8-4-4-4-12. It is used for concrete inputs only; the
  functions of the client take the normalizer as a parameter.
\<close>

definition stripDashes :: "string \<Rightarrow> string" where
  "stripDashes s = filter (\<lambda>c. c \<noteq> CHR ''-'') s"

definition IsValidNoDashID :: "string \<Rightarrow> bool" where
  "IsValidNoDashID s = (length s = 32 \<and> list_all is_hex s)"

definition ToNoDashID_spec :: "string \<Rightarrow> string" where
  "ToNoDashID_spec s = (if IsValidNoDashID (stripDashes s) then stripDashes s else [])"

definition ToDashID_spec :: "string \<Rightarrow> string" where
  "ToDashID_spec s =
     (let t = stripDashes s
      in if length t \<noteq> 32 then s
         else take 8 t @ ''-'' @ take 4 (drop 8 t) @ ''-'' @ take 4 (drop 12 t) @ ''-''
              @ take 4 (drop 16 t) @ ''-'' @ drop 20 t)"

definition NewNotionID_spec :: "string \<Rightarrow> NotionID option" where
  "NewNotionID_spec s =
     (if IsValidNoDashID (stripDashes s)
      then Some \<lparr>DashID = ToDashID_spec s, NoDashID = stripDashes s\<rparr>
      else None)"

definition isIDEqual_spec :: "string \<Rightarrow> string \<Rightarrow> bool" where
  "isIDEqual_spec a b = (stripDashes a = stripDashes b)"

section \<open>Downloading one page\<close>

text \<open>
  \<open>Client.DownloadPage\<close> is not under src/. It is a parameter: a program that issues
  any number of requests through the client's transport, each depending on the
  answers to the earlier ones, and then returns a page or an error.
\<close>

datatype 'r download = Finish 'r | Request string bytes "error + bytes \<Rightarrow> 'r download"

text \<open>The client's transport: the override when one is installed, else the live request.\<close>

definition clientPost ::
  "CachingClient \<Rightarrow> env \<Rightarrow> string \<Rightarrow> bytes \<Rightarrow> (error + bytes) outcome \<times> CachingClient \<times> env" where
  "clientPost c e uri body =
     (case httpPostOverride c of
        None \<Rightarrow> (case doPostInternal e uri body of (r, e1) \<Rightarrow> (Ret r, c, e1))
      | Some (UserOverride f) \<Rightarrow> (Ret (f uri body), c, e)
      | Some DoPostMaybeCached \<Rightarrow> doPostMaybeCached c e uri body)"

primrec runDownload ::
  "'r download \<Rightarrow> CachingClient \<Rightarrow> env \<Rightarrow> 'r outcome \<times> CachingClient \<times> env" where
  "runDownload (Finish r) c e = (Ret r, c, e)"
| "runDownload (Request uri body k) c e =
     (case clientPost c e uri body of
        (Panic msg, c1, e1) \<Rightarrow> (Panic msg, c1, e1)
      | (Ret resp, c1, e1) \<Rightarrow> runDownload (k resp) c1 e1)"

text \<open>
  \<open>DownloadPage\<close>. The deferred function runs when the delegated download returns and
  also when it panics; should the flush itself panic, the rest of the deferred
  function is skipped.
\<close>

definition DownloadPage ::
  "(string \<Rightarrow> NotionID option) \<Rightarrow> (string \<Rightarrow> (error + Page) download)
   \<Rightarrow> CachingClient \<Rightarrow> env \<Rightarrow> string \<Rightarrow> (error + Page) outcome \<times> CachingClient \<times> env" where
  "DownloadPage NewNotionID clientDownloadPage c e pageID =
     (let c1 = c\<lparr>currPageRequests := [], currPageID := NewNotionID pageID\<rparr>
      in if currPageID c1 = None then (Ret (Inl (InvalidNotionID pageID)), c1, e)
         else (let prevOverride = httpPostOverride c1;
                   c2 = c1\<lparr>httpPostOverride := Some DoPostMaybeCached\<rparr>
               in (case runDownload (clientDownloadPage pageID) c2 e of
                     (res, c3, e3) \<Rightarrow>
                       (case writeCacheForCurrPage c3 e3 of
                          (Panic msg, c4, e4) \<Rightarrow> (Panic msg, c4, e4)
                        | (Ret w, c4, e4) \<Rightarrow>
                            (res, c4\<lparr>httpPostOverride := prevOverride, currPageID := None\<rparr>, e4)))))"

section \<open>The crawl\<close>

text \<open>
  The loop of \<open>DownloadPagesRecursively\<close>, over any function that downloads one page in
  a state \<open>'s\<close>. The map \<open>downloaded\<close> is kept as an association list in the order of
  insertion; \<open>calls\<close> lists the ids the download was called with. The loop need not end,
  so a missing result is \<open>None\<close>.
\<close>

text \<open>The assignment \<open>downloaded[pageID] = page\<close>.\<close>

definition insertPage ::
  "string \<Rightarrow> Page \<Rightarrow> (string \<times> Page) list \<Rightarrow> (string \<times> Page) list" where
  "insertPage k p m =
     (if map_of m k = None then m @ [(k, p)]
      else map (\<lambda>(k1, p1). if k1 = k then (k1, p) else (k1, p1)) m)"

text \<open>The loop itself.\<close>

partial_function (option) crawlLoop ::
  "(string \<Rightarrow> string) \<Rightarrow> (string \<Rightarrow> 's \<Rightarrow> (error + Page) outcome \<times> 's)
   \<Rightarrow> (Page \<Rightarrow> error option) option
   \<Rightarrow> string list \<Rightarrow> (string \<times> Page) list \<Rightarrow> string list \<Rightarrow> 's
   \<Rightarrow> ((error + (string \<times> Page) list) outcome \<times> string list \<times> 's) option" where
  "crawlLoop ToNoDashID download afterDownload toVisit downloaded calls s =
     (case toVisit of
        [] \<Rightarrow> Some (Ret (Inr downloaded), calls, s)
      | first # rest \<Rightarrow>
          (let pageID = ToNoDashID first
           in if map_of downloaded pageID \<noteq> None
              then crawlLoop ToNoDashID download afterDownload rest downloaded calls s
              else (case download pageID s of
                      (Panic msg, s1) \<Rightarrow> Some (Panic msg, calls @ [pageID], s1)
                    | (Ret (Inl err), s1) \<Rightarrow> Some (Ret (Inl err), calls @ [pageID], s1)
                    | (Ret (Inr page), s1) \<Rightarrow>
                        (case (case afterDownload of None \<Rightarrow> None | Some f \<Rightarrow> f page) of
                           Some err \<Rightarrow> Some (Ret (Inl err), calls @ [pageID], s1)
                         | None \<Rightarrow>
                             crawlLoop ToNoDashID download afterDownload
                               (rest @ SubPages page) (insertPage pageID page downloaded)
                               (calls @ [pageID]) s1))))"

declare crawlLoop.simps [code]

text \<open>
  The end of \<open>DownloadPagesRecursively\<close>: nil when nothing was downloaded, else the pages
  in the order of their sorted keys. Go compares strings byte by byte, as the order on
  \<open>string\<close> does here.
\<close>

definition sortedPages :: "(string \<times> Page) list \<Rightarrow> Page option list option" where
  "sortedPages downloaded =
     (let n = length downloaded
      in if n = 0 then None
         else Some (map (map_of downloaded) (sort (map fst downloaded))))"

text \<open>
  \<open>DownloadPagesRecursively\<close> over any download function: the loop from the start id,
  then the sorted pages.
\<close>

definition DownloadPagesRecursivelyWith ::
  "(string \<Rightarrow> string) \<Rightarrow> (string \<Rightarrow> 's \<Rightarrow> (error + Page) outcome \<times> 's)
   \<Rightarrow> 's \<Rightarrow> string \<Rightarrow> (Page \<Rightarrow> error option) option
   \<Rightarrow> ((error + Page option list option) outcome \<times> string list \<times> 's) option" where
  "DownloadPagesRecursivelyWith ToNoDashID download s startPageID afterDownload =
     (case crawlLoop ToNoDashID download afterDownload [startPageID] [] [] s of
        None \<Rightarrow> None
      | Some (Panic msg, calls, s1) \<Rightarrow> Some (Panic msg, calls, s1)
      | Some (Ret (Inl err), calls, s1) \<Rightarrow> Some (Ret (Inl err), calls, s1)
      | Some (Ret (Inr downloaded), calls, s1) \<Rightarrow>
          Some (Ret (Inr (sortedPages downloaded)), calls, s1))"

text \<open>The crawl of the caching client: each page is downloaded with \<open>DownloadPage\<close>.\<close>

definition DownloadPagesRecursively ::
  "(string \<Rightarrow> string) \<Rightarrow> (string \<Rightarrow> NotionID option) \<Rightarrow> (string \<Rightarrow> (error + Page) download)
   \<Rightarrow> CachingClient \<times> env \<Rightarrow> string \<Rightarrow> (Page \<Rightarrow> error option) option
   \<Rightarrow> ((error + Page option list option) outcome \<times> string list \<times> CachingClient \<times> env) option" where
  "DownloadPagesRecursively ToNoDashID NewNotionID clientDownloadPage s
       startPageID afterDownload =
     DownloadPagesRecursivelyWith ToNoDashID
       (\<lambda>pageID (c, e). DownloadPage NewNotionID clientDownloadPage c e pageID)
       s startPageID afterDownload"

section \<open>Loading the cache directory\<close>

text \<open>\<open>strings.HasSuffix\<close> and \<open>strings.Replace(name, ".txt", "", -1)\<close>.\<close>

definition HasSuffix :: "string \<Rightarrow> string \<Rightarrow> bool" where
  "HasSuffix s suffix = (length s \<ge> length suffix \<and> drop (length s - length suffix) s = suffix)"

function removeTxt :: "string \<Rightarrow> string" where
  "removeTxt s =
     (if s = [] then []
      else if take 4 s = ''.txt'' then removeTxt (drop 4 s)
      else hd s # removeTxt (tl s))"
  by pat_completeness auto
termination
  by (relation "measure length") auto

declare removeTxt.simps [simp del]

text \<open>
  The loop of \<open>readRequestsCacheFile\<close> over the directory entries (name, is a regular
  file).
\<close>

fun loadEntries ::
  "(string \<Rightarrow> NotionID option) \<Rightarrow> env \<Rightarrow> string \<Rightarrow> (string \<times> bool) list \<Rightarrow> CachingClient
   \<Rightarrow> error option \<times> CachingClient" where
  "loadEntries NewNotionID e dir [] c = (None, c)"
| "loadEntries NewNotionID e dir ((name, regular) # entries) c =
     (if \<not> regular then loadEntries NewNotionID e dir entries c
      else if \<not> HasSuffix name ''.txt'' then loadEntries NewNotionID e dir entries c
      else (case NewNotionID (removeTxt name) of
              None \<Rightarrow> loadEntries NewNotionID e dir entries c
            | Some nid \<Rightarrow>
                (case ReadFile e (Join dir name) of
                   Inl err \<Rightarrow> (Some err, c)
                 | Inr d \<Rightarrow>
                     (case deserializeCacheEntry d of
                        Inl err \<Rightarrow> (Some err, c)
                      | Inr rs \<Rightarrow>
                          loadEntries NewNotionID e dir entries
                            (c\<lparr>pageIDToEntries := (pageIDToEntries c)(NoDashID nid \<mapsto> rs)\<rparr>)))))"

definition readRequestsCacheFile ::
  "(string \<Rightarrow> NotionID option) \<Rightarrow> CachingClient \<Rightarrow> env \<Rightarrow> string \<Rightarrow> error option \<times> CachingClient" where
  "readRequestsCacheFile NewNotionID c e dir =
     (let c1 = c\<lparr>pageIDToEntries := Map.empty\<rparr>
      in (case mkdirFault e dir of
            Some err \<Rightarrow> (Some err, c1)
          | None \<Rightarrow>
              (case readDirFault e dir of
                 Some err \<Rightarrow> (Some err, c1)
               | None \<Rightarrow> loadEntries NewNotionID e dir (listing e dir) c1)))"

section \<open>Parsing text spans\<close>

text \<open>
  A value of type \<open>interface{}\<close> as the parser inspects it: nil, a string, a list, a
  map with string keys, or a value of any other dynamic type (given by its printed
  form).
\<close>

datatype raw = RNil | RString string | RList "raw list" | RMap "(string \<times> raw) list" | ROther string

datatype span_error =
  AttributeArrayEmpty
  | AttributeNameNotString
  | DateNotTwoValues
  | DateValueNotMap
  | MarshalFailed string
  | AttributeValueNotString
  | RawAttrNotList
  | SpanEmpty
  | SpanTextNotString
  | SpanLengthNotTwo
  | SpanAttrsNotList
  | RawNotList
  | RawEmpty
  | SpanNotList

record TextSpan =
  Text :: string
  Attrs :: "string list list"

definition Attr2Date :: string where
  "Attr2Date = ''d''"

text \<open>The loop of \<open>parseTextSpanAttribute\<close> over the values after the name.\<close>

fun attrValues :: "raw list \<Rightarrow> string list \<Rightarrow> span_error + string list" where
  "attrValues [] attr = Inr attr"
| "attrValues (v # vs) attr =
     (case v of
        RString s \<Rightarrow> attrValues vs (attr @ [s])
      | _ \<Rightarrow> Inl AttributeValueNotString)"

text \<open>
  \<open>parseTextSpanAttribute\<close>; \<open>json.MarshalIndent\<close> is a parameter, with its error as a
  text.
\<close>

definition parseTextSpanAttribute ::
  "((string \<times> raw) list \<Rightarrow> string + string) \<Rightarrow> TextSpan \<Rightarrow> raw list \<Rightarrow> span_error + TextSpan" where
  "parseTextSpanAttribute MarshalIndent b a =
     (if length a = 0 then Inl AttributeArrayEmpty
      else (case hd a of
              RString s \<Rightarrow>
                if s = Attr2Date then
                  (if length a \<noteq> 2 then Inl DateNotTwoValues
                   else (case a ! 1 of
                           RMap v \<Rightarrow>
                             (case MarshalIndent v of
                                Inl err \<Rightarrow> Inl (MarshalFailed err)
                              | Inr js \<Rightarrow> Inr (b\<lparr>Attrs := Attrs b @ [[s] @ [js]]\<rparr>))
                         | _ \<Rightarrow> Inl DateValueNotMap))
                else (case attrValues (tl a) [s] of
                        Inl err \<Rightarrow> Inl err
                      | Inr attr \<Rightarrow> Inr (b\<lparr>Attrs := Attrs b @ [attr]\<rparr>))
            | _ \<Rightarrow> Inl AttributeNameNotString))"

fun parseTextSpanAttributes ::
  "((string \<times> raw) list \<Rightarrow> string + string) \<Rightarrow> TextSpan \<Rightarrow> raw list \<Rightarrow> span_error + TextSpan" where
  "parseTextSpanAttributes MarshalIndent b [] = Inr b"
| "parseTextSpanAttributes MarshalIndent b (rawAttr # rest) =
     (case rawAttr of
        RList attrList \<Rightarrow>
          (case parseTextSpanAttribute MarshalIndent b attrList of
             Inl err \<Rightarrow> Inl err
           | Inr b1 \<Rightarrow> parseTextSpanAttributes MarshalIndent b1 rest)
      | _ \<Rightarrow> Inl RawAttrNotList)"

definition parseTextSpan ::
  "((string \<times> raw) list \<Rightarrow> string + string) \<Rightarrow> raw list \<Rightarrow> span_error + TextSpan" where
  "parseTextSpan MarshalIndent a =
     (if length a = 0 then Inl SpanEmpty
      else if length a = 1 then
        (case a ! 0 of
           RString s \<Rightarrow> Inr \<lparr>Text = s, Attrs = []\<rparr>
         | _ \<Rightarrow> Inl SpanTextNotString)
      else if length a \<noteq> 2 then Inl SpanLengthNotTwo
      else (case a ! 0 of
              RString s \<Rightarrow>
                (case a ! 1 of
                   RList attrs \<Rightarrow> parseTextSpanAttributes MarshalIndent \<lparr>Text = s, Attrs = []\<rparr> attrs
                 | _ \<Rightarrow> Inl SpanAttrsNotList)
            | _ \<Rightarrow> Inl SpanTextNotString))"

text \<open>The loop of \<open>ParseTextSpans\<close> over the entries of the list.\<close>

fun parseSpans ::
  "((string \<times> raw) list \<Rightarrow> string + string) \<Rightarrow> raw list \<Rightarrow> TextSpan list
   \<Rightarrow> span_error + TextSpan list" where
  "parseSpans MarshalIndent [] res = Inr res"
| "parseSpans MarshalIndent (v # vs) res =
     (case v of
        RList a2 \<Rightarrow>
          (case parseTextSpan MarshalIndent a2 of
             Inl err \<Rightarrow> Inl err
           | Inr span \<Rightarrow> parseSpans MarshalIndent vs (res @ [span]))
      | _ \<Rightarrow> Inl SpanNotList)"

definition ParseTextSpans ::
  "((string \<times> raw) list \<Rightarrow> string + string) \<Rightarrow> raw \<Rightarrow> span_error + TextSpan list" where
  "ParseTextSpans MarshalIndent rawv =
     (if rawv = RNil then Inr []
      else (case rawv of
              RList a \<Rightarrow> if length a = 0 then Inl RawEmpty else parseSpans MarshalIndent a []
            | _ \<Rightarrow> Inl RawNotList))"

text \<open>
  The shape the parser expects, written from the words of the specification: a
  non-empty list of span entries; an entry is a list of one or two values that starts with a string; its
  second value is a list of attributes; an attribute is a list that starts with a
  string; a date attribute has exactly one more value, a map; any other attribute has
  only strings after its name.
\<close>

definition is_string :: "raw \<Rightarrow> bool" where
  "is_string v = (case v of RString s \<Rightarrow> True | _ \<Rightarrow> False)"

definition good_attr :: "raw \<Rightarrow> bool" where
  "good_attr a =
     (case a of
        RList (RString s # rest) \<Rightarrow>
          if s = Attr2Date then (case rest of [RMap m] \<Rightarrow> True | _ \<Rightarrow> False)
          else list_all is_string rest
      | _ \<Rightarrow> False)"

definition good_span :: "raw \<Rightarrow> bool" where
  "good_span v =
     (case v of
        RList [RString t] \<Rightarrow> True
      | RList [RString t, RList attrs] \<Rightarrow> list_all good_attr attrs
      | _ \<Rightarrow> False)"

definition good_raw :: "raw \<Rightarrow> bool" where
  "good_raw rawv = (case rawv of RList spans \<Rightarrow> spans \<noteq> [] \<and> list_all good_span spans | _ \<Rightarrow> False)"

section \<open>Auxiliary notions of the statements\<close>

text \<open>A key can be read back when it holds neither a line break nor a colon.\<close>

definition key_ok :: "string \<Rightarrow> bool" where
  "key_ok k = (LF \<notin> set k \<and> CHR '':'' \<notin> set k)"

text \<open>The bytes \<open>serializeCacheEntry\<close> writes for one record.\<close>

definition wire :: "(bytes \<Rightarrow> bytes) \<Rightarrow> RequestCacheEntry \<Rightarrow> bytes" where
  "wire pp rr =
     WriteRecord
       [(''Method'', Method rr), (''URL'', URL rr), (''Body'', Body rr),
        (''Response'', pp (Response rr))]
       recCacheName"

text \<open>What stays fixed while a page is downloaded.\<close>

definition sameScope :: "CachingClient \<Rightarrow> CachingClient \<Rightarrow> bool" where
  "sameScope c c1 =
     (httpPostOverride c1 = httpPostOverride c \<and> currPageID c1 = currPageID c \<and>
      pageIDToEntries c1 = pageIDToEntries c \<and> NoReadCache c1 = NoReadCache c \<and>
      CacheDir c1 = CacheDir c)"

text \<open>
  A download is answered from the records \<open>rs\<close> when each of its requests, taken in
  turn with the cached answers to the earlier ones, has a matching record.
\<close>

primrec allFromCache :: "RequestCacheEntry list \<Rightarrow> 'r download \<Rightarrow> bool" where
  "allFromCache rs (Finish r) = True"
| "allFromCache rs (Request uri body k) =
     (snd (findEntry rs ''POST'' uri body) \<and>
      allFromCache rs (k (Inr (fst (findEntry rs ''POST'' uri body)))))"

primrec replay :: "RequestCacheEntry list \<Rightarrow> 'r download \<Rightarrow> 'r \<times> nat" where
  "replay rs (Finish r) = (r, 0)"
| "replay rs (Request uri body k) =
     (case replay rs (k (Inr (fst (findEntry rs ''POST'' uri body)))) of (r, n) \<Rightarrow> (r, Suc n))"

definition entriesOf :: "CachingClient \<Rightarrow> NotionID \<Rightarrow> RequestCacheEntry list" where
  "entriesOf c nid = (case pageIDToEntries c (NoDashID nid) of None \<Rightarrow> [] | Some rs \<Rightarrow> rs)"

text \<open>
  A directory entry is a candidate cache file when it is a regular file whose name ends
  in \<open>.txt\<close> and parses as an identity once \<open>.txt\<close> is removed. An entry loads cleanly
  when it is no candidate, or its file can be read and deserialized.
\<close>

definition isCandidate :: "(string \<Rightarrow> NotionID option) \<Rightarrow> string \<times> bool \<Rightarrow> bool" where
  "isCandidate NewNotionID entry =
     (snd entry \<and> HasSuffix (fst entry) ''.txt'' \<and> NewNotionID (removeTxt (fst entry)) \<noteq> None)"

definition loadsCleanly ::
  "(string \<Rightarrow> NotionID option) \<Rightarrow> env \<Rightarrow> string \<Rightarrow> string \<times> bool \<Rightarrow> bool" where
  "loadsCleanly NewNotionID e dir entry =
     (isCandidate NewNotionID entry \<longrightarrow>
        (case ReadFile e (Join dir (fst entry)) of
           Inl err \<Rightarrow> False
         | Inr d \<Rightarrow> (case deserializeCacheEntry d of Inl err \<Rightarrow> False | Inr rs \<Rightarrow> True)))"

text \<open>
  The pages reachable from a start id in a map of downloaded pages: the normalized
  start id, and the normalized ids of the sub-pages of every reachable page of the map.
\<close>

inductive_set reachable :: "(string \<Rightarrow> string) \<Rightarrow> (string \<times> Page) list \<Rightarrow> string \<Rightarrow> string set"
  for N :: "string \<Rightarrow> string" and m :: "(string \<times> Page) list" and start :: string where
  start: "N start \<in> reachable N m start"
| step: "k \<in> reachable N m start \<Longrightarrow> (k, p) \<in> set m \<Longrightarrow> x \<in> set (SubPages p)
         \<Longrightarrow> N x \<in> reachable N m start"

text \<open>
  What the crawl loop has achieved when it returns the map \<open>m\<close>, having started with
  the queue \<open>toVisit\<close> and added the entries \<open>ext\<close>: every queued id and every
  sub-page of an added page is a key of \<open>m\<close>, and the added keys lie in every set that
  holds the queued ids and is closed under the sub-page references of the added pages.
\<close>

definition crawlExt ::
  "(string \<Rightarrow> string) \<Rightarrow> string list \<Rightarrow> (string \<times> Page) list \<Rightarrow> (string \<times> Page) list \<Rightarrow> bool" where
  "crawlExt N toVisit m ext =
     ((\<forall>x \<in> set toVisit. N x \<in> fst ` set m) \<and>
      (\<forall>(k, p) \<in> set ext. \<forall>x \<in> set (SubPages p). N x \<in> fst ` set m) \<and>
      (\<forall>R. (\<forall>x \<in> set toVisit. N x \<in> R) \<and>
           (\<forall>(k, p) \<in> set ext. k \<in> R \<longrightarrow> (\<forall>x \<in> set (SubPages p). N x \<in> R))
           \<longrightarrow> fst ` set ext \<subseteq> R))"

text \<open>A key and a page such that the download of the key returned the page in some state.\<close>

definition returned ::
  "(string \<Rightarrow> 's \<Rightarrow> (error + Page) outcome \<times> 's) \<Rightarrow> string \<times> Page \<Rightarrow> bool" where
  "returned download kp = (\<exists>s s1. download (fst kp) s = (Ret (Inr (snd kp)), s1))"

text \<open>
  The result of the crawl loop: no id was passed to the download twice; on success the
  ids passed are the keys of the map, in order, and the map extends the one the loop
  started with as \<open>crawlExt\<close> says.
\<close>

definition crawlPost ::
  "(string \<Rightarrow> string) \<Rightarrow> (string \<Rightarrow> 's \<Rightarrow> (error + Page) outcome \<times> 's)
   \<Rightarrow> string list \<Rightarrow> (string \<times> Page) list
   \<Rightarrow> (error + (string \<times> Page) list) outcome \<Rightarrow> string list \<Rightarrow> bool" where
  "crawlPost N download toVisit downloaded out calls1 =
     (distinct calls1 \<and>
      (\<forall>m. out = Ret (Inr m) \<longrightarrow>
         (\<exists>ext. m = downloaded @ ext \<and> calls1 = map fst m \<and> crawlExt N toVisit m ext \<and>
                list_all (returned download) ext)))"

text \<open>
  Where a failed crawl gets its failure from: an error is the error of some page
  download or of the callback; a panic is the panic of some page download.
\<close>

definition failureCause ::
  "(string \<Rightarrow> 's \<Rightarrow> (error + Page) outcome \<times> 's) \<Rightarrow> (Page \<Rightarrow> error option) option
   \<Rightarrow> (error + 'a) outcome \<Rightarrow> bool" where
  "failureCause download after out =
     (case out of
        Ret (Inr v) \<Rightarrow> True
      | Ret (Inl err) \<Rightarrow>
          (\<exists>pid s s1. download pid s = (Ret (Inl err), s1)) \<or>
          (\<exists>f p. after = Some f \<and> f p = Some err)
      | Panic msg \<Rightarrow> (\<exists>pid s s1. download pid s = (Panic msg, s1)))"

text \<open>The results a page download can return, over all answers to its requests.\<close>

primrec mayReturn :: "'r download \<Rightarrow> 'r \<Rightarrow> bool" where
  "mayReturn (Finish r0) r = (r0 = r)"
| "mayReturn (Request uri body k) r = (\<exists>resp. mayReturn (k resp) r)"

section \<open>Concrete inputs\<close>

text \<open>
  A file system without faults and without files, a service that answers every request
  with \<open>ok\<close>, and a client as \<open>NewCachingClient\<close> leaves it after loading an empty
  directory.
\<close>

definition demoEnv :: env where
  "demoEnv =
     \<lparr>files = Map.empty, listing = (\<lambda>d. []), mkdirFault = (\<lambda>d. None),
      readDirFault = (\<lambda>d. None), readFault = (\<lambda>p. None), writeFault = (\<lambda>p. None),
      removeFault = (\<lambda>p. False), net = (\<lambda>h u b. Inr ''ok''), liveLog = []\<rparr>"

definition demoClient :: CachingClient where
  "demoClient =
     \<lparr>CacheDir = ''cache'', httpPostOverride = None, RedownloadNewerVersions = False,
      NoReadCache = False, pageIDToEntries = Map.empty, currPageID = None,
      currPageRequests = [], IdToPageLatestVersion = None,
      didCheckVersionsOfCachedPages = False,
      RequestsFromCache = 0, RequestsNotFromCache = 0, RequestsWrittenToCache = 0\<rparr>"

definition idA :: string where
  "idA = ''aaaaaaaaaaaaaaaaaaaaaaaaaaaaaaaa''"

definition idB :: string where
  "idB = ''bbbbbbbbbbbbbbbbbbbbbbbbbbbbbbbb''"

definition nidA :: NotionID where
  "nidA = \<lparr>DashID = ''aaaaaaaa-aaaa-aaaa-aaaa-aaaaaaaaaaaa'', NoDashID = idA\<rparr>"

text \<open>The JSON text \<open>{"a":1}\<close> and its pretty-printed form, on three lines.\<close>

definition compactJSON :: bytes where
  "compactJSON = ''{'' @ [CHR 0x22] @ ''a'' @ [CHR 0x22] @ '':1}''"

definition prettyJSON :: bytes where
  "prettyJSON = ''{'' @ [LF] @ ''  '' @ [CHR 0x22] @ ''a'' @ [CHR 0x22] @ '': 1'' @ [LF] @ ''}''"

definition demoEntry :: RequestCacheEntry where
  "demoEntry = \<lparr>Method = ''POST'', URL = ''/api/v3/loadPageChunk'', Body = ''{}'',
                 Response = compactJSON\<rparr>"

definition binaryEntry :: RequestCacheEntry where
  "binaryEntry = \<lparr>Method = ''POST'', URL = ''/api/v3/getRecordValues'',
                   Body = [CHR 0x00, LF, CHR 0xFF], Response = [LF, CHR 0x80, LF, LF]\<rparr>"


definition pathA :: string where
  "pathA = ''cache/aaaaaaaaaaaaaaaaaaaaaaaaaaaaaaaa.txt''"


text \<open>
  Answers of the version query: one block with the id \<open>idB\<close> whatever was asked, and no
  block for any id asked (every page deleted or private). A client with the freshness
  mode on and an empty version map; a client with the mode off that knows version 5
  for page \<open>idA\<close>; the page \<open>idA\<close> at version 1.
\<close>

definition wrongOrder :: "string list \<Rightarrow> error + Block option list" where
  "wrongOrder ids = Inr [Some \<lparr>ID = idB, Version = 7\<rparr>]"

definition pageGone :: "string list \<Rightarrow> error + Block option list" where
  "pageGone ids = Inr (map (\<lambda>x. None) ids)"

definition freshClient :: CachingClient where
  "freshClient = demoClient\<lparr>RedownloadNewerVersions := True, IdToPageLatestVersion := Some Map.empty\<rparr>"


definition pageA :: Page where
  "pageA = \<lparr>PageID = idA, RootVersion = 1, SubPages = []\<rparr>"





text \<open>
  A page download that sends one request and returns the page when it is answered; a
  client whose loaded index holds a record for that request under page \<open>idA\<close>; and two
  downloads of page \<open>idA\<close>, one after the other, by a client that loaded an empty
  directory.
\<close>

definition onePost :: "string \<Rightarrow> (error + Page) download" where
  "onePost pageID =
     Request ''/api/v3/loadPageChunk'' ''{}''
       (\<lambda>r. Finish (case r of Inl err \<Rightarrow> Inl err
                      | Inr d \<Rightarrow> Inr \<lparr>PageID = pageID, RootVersion = 1, SubPages = []\<rparr>))"

definition cachedClient :: CachingClient where
  "cachedClient =
     demoClient\<lparr>pageIDToEntries :=
       [idA \<mapsto> [\<lparr>Method = ''POST'', URL = ''/api/v3/loadPageChunk'', Body = ''{}'',
                   Response = ''cached''\<rparr>]]\<rparr>"

definition firstRun :: "(error + Page) outcome \<times> CachingClient \<times> env" where
  "firstRun = DownloadPage NewNotionID_spec onePost demoClient demoEnv idA"

definition secondRun :: "(error + Page) outcome \<times> CachingClient \<times> env" where
  "secondRun = DownloadPage NewNotionID_spec onePost (fst (snd firstRun)) (snd (snd firstRun)) idA"

text \<open>
  A cache directory with a text file that is no cache file, a subdirectory, and the
  cache file of page \<open>idA\<close> holding one well-framed record of another type.
\<close>

definition malformedCache :: env where
  "malformedCache =
     demoEnv\<lparr>listing := (\<lambda>d. [(''notes.txt'', True), (''assets'', False), (idA @ ''.txt'', True)]),
             files := [pathA \<mapsto> ''12 other'' @ [LF] @ ''Method: GET'' @ [LF]]\<rparr>"

text \<open>
  Two pages that refer to each other: page \<open>idA\<close> names page \<open>idB\<close> in dashed form, page
  \<open>idB\<close> names page \<open>idA\<close>. Each is downloaded with one request.
\<close>

definition pageOf :: "string \<Rightarrow> Page" where
  "pageOf pid =
     \<lparr>PageID = pid, RootVersion = 1,
      SubPages = (if pid = idA then [''bbbbbbbb-bbbb-bbbb-bbbb-bbbbbbbbbbbb'']
                  else if pid = idB then [idA] else [])\<rparr>"

definition cyclePages :: "string \<Rightarrow> (error + Page) download" where
  "cyclePages pid =
     Request ''/api/v3/loadPageChunk'' pid
       (\<lambda>r. Finish (case r of Inl err \<Rightarrow> Inl err | Inr d \<Rightarrow> Inr (pageOf pid)))"

section \<open>The record format: reading back what was written\<close>

lemma split_at_append: "c \<notin> set xs \<Longrightarrow> split_at c (xs @ c # ys) = Some (xs, ys)"
  by (induction xs) auto

lemma split_at_none: "c \<notin> set xs \<Longrightarrow> split_at c xs = None"
  by (induction xs) auto

lemma digit_char_props: "n < 10 \<Longrightarrow> is_digit (digit_char n) \<and> digit_val (digit_char n) = n"
proof -
  assume "n < 10"
  then have "n \<in> {0, 1, 2, 3, 4, 5, 6, 7, 8, 9}" by auto
  then show ?thesis
    by (auto simp: digit_char_def is_digit_def digit_val_def)
qed

lemma Itoa_digits: "Itoa n \<noteq> [] \<and> list_all is_digit (Itoa n)"
  by (induction n rule: Itoa.induct) (subst Itoa.simps, simp add: digit_char_props)+

lemma foldl_Itoa: "foldl (\<lambda>a c. 10 * a + digit_val c) 0 (Itoa n) = n"
proof (induction n rule: Itoa.induct)
  case (1 n)
  show ?case
  proof (cases "n < 10")
    case True
    then show ?thesis by (subst Itoa.simps) (simp add: digit_char_props)
  next
    case False
    with 1 show ?thesis by (subst Itoa.simps) (simp add: digit_char_props)
  qed
qed

lemma Atoi_Itoa: "Atoi (Itoa n) = Some n"
  by (simp add: Atoi_def Itoa_digits foldl_Itoa)

lemma not_digit_sep: "\<not> is_digit LF" "\<not> is_digit (CHR '' '')" "\<not> is_digit (CHR '':'')"
  by (simp_all add: is_digit_def LF_def)

lemma Itoa_no_sep:
  "LF \<notin> set (Itoa n) \<and> CHR '' '' \<notin> set (Itoa n) \<and> CHR '':'' \<notin> set (Itoa n)"
proof -
  have "\<forall>c \<in> set (Itoa n). is_digit c"
    using Itoa_digits [of n] by (simp add: list_all_iff)
  then show ?thesis
    using not_digit_sep by blast
qed

lemma short_no_LF: "\<not> needsLongFormat v \<Longrightarrow> LF \<notin> set v"
  by (auto simp: needsLongFormat_def isASCII_def list_all_iff LF_def)

lemma Unmarshal_keyval:
  assumes "key_ok k"
  shows "UnmarshalRecord (marshalKeyVal k v @ rest) =
         (case UnmarshalRecord rest of None \<Rightarrow> None | Some es \<Rightarrow> Some ((k, v) # es))"
proof (cases "needsLongFormat v")
  case False
  have "LF \<notin> set (k @ '': '' @ v)"
    using assms short_no_LF [OF False] by (auto simp: key_ok_def LF_def)
  then have s1: "split_at LF ((k @ '': '' @ v) @ LF # rest) = Some (k @ '': '' @ v, rest)"
    by (rule split_at_append)
  have s2: "split_at (CHR '':'') (k @ CHR '':'' # '' '' @ v) = Some (k, '' '' @ v)"
    using assms by (intro split_at_append) (simp add: key_ok_def)
  show ?thesis
    using False s1 s2
    by (subst UnmarshalRecord.simps) (simp add: marshalKeyVal_def)
next
  case True
  let ?line = "k @ '':+'' @ Itoa (length v)"
  have "LF \<notin> set ?line"
    using assms Itoa_no_sep [of "length v"] by (auto simp: key_ok_def LF_def)
  then have s1: "split_at LF (?line @ LF # (v @ LF # rest)) = Some (?line, v @ LF # rest)"
    by (rule split_at_append)
  have s2: "split_at (CHR '':'') (k @ CHR '':'' # (''+'' @ Itoa (length v)))
            = Some (k, ''+'' @ Itoa (length v))"
    using assms by (intro split_at_append) (simp add: key_ok_def)
  show ?thesis
    using True s1 s2
    by (subst UnmarshalRecord.simps)
       (simp add: marshalKeyVal_def Atoi_Itoa skip_newline_def cong: option.case_cong)
qed

lemma Unmarshal_Marshal:
  "list_all (\<lambda>(k, v). key_ok k) es \<Longrightarrow> UnmarshalRecord (Marshal es) = Some es"
proof (induction es)
  case Nil
  then show ?case by (subst UnmarshalRecord.simps) (simp add: Marshal_def)
next
  case (Cons kv es)
  obtain k v where kv: "kv = (k, v)" by (cases kv)
  from Cons kv have "key_ok k" and ih: "UnmarshalRecord (Marshal es) = Some es"
    by auto
  have "Marshal (kv # es) = marshalKeyVal k v @ Marshal es"
    by (simp add: Marshal_def kv)
  then show ?case
    using Unmarshal_keyval [OF \<open>key_ok k\<close>, of v "Marshal es"] ih kv by simp
qed

lemma ReadNextData_WriteRecord:
  assumes "LF \<notin> set name"
  shows "ReadNextData (WriteRecord es name @ rem) = Some (name, Marshal es, rem)"
proof -
  let ?d = "Marshal es"
  let ?h = "Itoa (length ?d) @ (if name \<noteq> [] then '' '' @ name else [])"
  let ?pad = "if ?d \<noteq> [] \<and> last ?d \<noteq> LF then [LF] else []"
  have w: "WriteRecord es name @ rem = ?h @ LF # (?d @ ?pad @ rem)"
    by (simp add: WriteRecord_def Let_def)
  have "LF \<notin> set ?h"
    using assms Itoa_no_sep [of "length ?d"] by (auto simp: LF_def)
  then have s1: "split_at LF (?h @ LF # (?d @ ?pad @ rem)) = Some (?h, ?d @ ?pad @ rem)"
    by (rule split_at_append)
  have s2: "(case split_at (CHR '' '') ?h of None \<Rightarrow> (?h, []) | Some (a, b) \<Rightarrow> (a, b))
            = (Itoa (length ?d), name)"
  proof (cases "name = []")
    case True
    have "split_at (CHR '' '') (Itoa (length ?d)) = None"
      using Itoa_no_sep [of "length ?d"] by (intro split_at_none) simp
    then show ?thesis using True by simp
  next
    case False
    have "split_at (CHR '' '') (Itoa (length ?d) @ CHR '' '' # name)
          = Some (Itoa (length ?d), name)"
      using Itoa_no_sep [of "length ?d"] by (intro split_at_append) simp
    then show ?thesis using False by simp
  qed
  have t: "take (length ?d) (?d @ ?pad @ rem) = ?d"
    by simp
  have dr: "drop (length ?d) (?d @ ?pad @ rem) = ?pad @ rem"
    by simp
  have len: "\<not> length (?d @ ?pad @ rem) < length ?d"
    by simp
  show ?thesis
    unfolding w ReadNextData_def s1 option.case prod.case s2 Let_def Atoi_Itoa t dr
    using len by (simp del: length_append append_assoc)
qed

lemma ReadNextRecord_wire:
  "ReadNextRecord (wire pp rr @ rem) =
     Some (recCacheName,
           [(''Method'', Method rr), (''URL'', URL rr), (''Body'', Body rr),
            (''Response'', pp (Response rr))],
           rem)"
proof -
  have n: "LF \<notin> set recCacheName"
    by (simp add: recCacheName_def LF_def)
  have k: "list_all (\<lambda>(k, v). key_ok k)
             [(''Method'', Method rr), (''URL'', URL rr), (''Body'', Body rr),
              (''Response'', pp (Response rr))]"
    by (simp add: key_ok_def LF_def)
  show ?thesis
    using ReadNextData_WriteRecord [OF n] Unmarshal_Marshal [OF k]
    by (simp add: ReadNextRecord_def wire_def)
qed

lemma deserializeLoop_wire:
  "deserializeLoop (wire pp rr @ rem) None res =
     deserializeLoop rem None (res @ [rr\<lparr>Response := pp (Response rr)\<rparr>])"
  by (subst deserializeLoop.simps, cases rr)
     (simp add: ReadNextRecord_wire recGetKey_def recGetKeyBytes_def Get_def)

lemma deserializeLoop_end: "deserializeLoop [] None res = Inr res"
  by (subst deserializeLoop.simps) (simp add: ReadNextRecord_def ReadNextData_def)

lemma deserializeLoop_wires:
  "deserializeLoop (concat (map (wire pp) rrs)) None res =
     Inr (res @ map (\<lambda>rr. rr\<lparr>Response := pp (Response rr)\<rparr>) rrs)"
proof (induction rrs arbitrary: res)
  case Nil
  then show ?case by (simp add: deserializeLoop_end)
next
  case (Cons rr rrs)
  then show ?case by (simp add: deserializeLoop_wire)
qed

lemma serializeEntriesWith_wires:
  "serializeEntriesWith pp rrs buf = Inr (buf @ concat (map (wire pp) rrs))"
  by (induction rrs arbitrary: buf) (simp_all add: serializeCacheEntryWith_def wire_def)

lemma serializeEntries_total: "\<exists>buf. serializeEntries rrs acc = Inr buf"
  by (simp add: serializeEntries_def serializeEntriesWith_wires)

lemma PrettyPrintJS_compactJSON: "PrettyPrintJS compactJSON = prettyJSON"
  by code_simp

lemma PrettyPrintJS_binary: "PrettyPrintJS [LF, CHR 0x80, LF, LF] = [LF, CHR 0x80, LF, LF]"
  by code_simp

text \<open>
  C1, as amended. For every list of cache records, whatever bytes their fields hold,
  serializing each record, concatenating the results and deserializing yields a list
  of the same length whose records have exactly the original Method, URL and Body, and
  as Response the pretty-printed form of the original Response. (\<open>serializeCacheEntry\<close>
  is \<open>serializeCacheEntryWith PrettyPrintJS\<close>; the statement holds for any
  pretty-printer \<open>pp\<close>.) The Response is therefore the original one exactly when
  pretty-printing leaves it unchanged, as it does for bytes that are not JSON.
\<close>

theorem roundtrip_pretty_printed:
  "\<exists>d. serializeEntriesWith pp rrs [] = Inr d \<and>
       deserializeCacheEntry d = Inr (map (\<lambda>rr. rr\<lparr>Response := pp (Response rr)\<rparr>) rrs)"
  by (simp add: serializeEntriesWith_wires deserializeCacheEntry_def deserializeLoop_wires)

theorem roundtrip_pretty_printed_witness:
  "\<exists>d. serializeEntries [demoEntry, binaryEntry] [] = Inr d \<and>
       deserializeCacheEntry d = Inr [demoEntry\<lparr>Response := prettyJSON\<rparr>, binaryEntry]"
  using roundtrip_pretty_printed [of PrettyPrintJS "[demoEntry, binaryEntry]"]
  by (simp add: serializeEntries_def demoEntry_def binaryEntry_def PrettyPrintJS_compactJSON
        PrettyPrintJS_binary)

text \<open>
  C1 as stated fails: a record whose Response is the JSON text \<open>{"a":1}\<close> comes back
  with the Response on three lines.
\<close>

theorem roundtrip_changes_json_response:
  "(case serializeEntries [demoEntry] [] of
      Inl err \<Rightarrow> False
    | Inr d \<Rightarrow> deserializeCacheEntry d = Inr [demoEntry\<lparr>Response := prettyJSON\<rparr>]
              \<and> deserializeCacheEntry d \<noteq> Inr [demoEntry])
   \<and> Response demoEntry = compactJSON \<and> prettyJSON \<noteq> compactJSON"
  by code_simp

section \<open>Flushing the pending records\<close>

text \<open>
  C10. When the pending request list of the current page is empty,
  \<open>writeCacheForCurrPage\<close> returns nil and changes neither the client (so
  \<open>RequestsWrittenToCache\<close> stays) nor the file system: no file is written or deleted,
  and an existing cache file of the page keeps its bytes.
\<close>

theorem flush_empty:
  "currPageRequests c = [] \<Longrightarrow> writeCacheForCurrPage c e = (Ret None, c, e)"
  by (simp add: writeCacheForCurrPage_def)

theorem flush_empty_witness:
  "writeCacheForCurrPage demoClient (demoEnv\<lparr>files := [pathA \<mapsto> ''old'']\<rparr>)
     = (Ret None, demoClient, demoEnv\<lparr>files := [pathA \<mapsto> ''old'']\<rparr>)"
  using flush_empty [of demoClient "demoEnv\<lparr>files := [pathA \<mapsto> ''old'']\<rparr>"]
  by (simp add: demoClient_def)




section \<open>Version queries\<close>

lemma versionsLoop_panics:
  "j < length results \<Longrightarrow> results ! j = Some b \<Longrightarrow> \<not> isIDEqual (ids ! (i + j)) (ID b) \<Longrightarrow>
   \<exists>msg. versionsLoop isIDEqual ids i results acc = Panic msg"
proof (induction results arbitrary: i j acc)
  case Nil
  then show ?case by simp
next
  case (Cons r results)
  show ?case
  proof (cases j)
    case 0
    with Cons.prems show ?thesis by simp
  next
    case (Suc j')
    with Cons.prems have "j' < length results" "results ! j' = Some b"
      "\<not> isIDEqual (ids ! (Suc i + j')) (ID b)"
      by simp_all
    then have ih: "\<And>acc. \<exists>msg. versionsLoop isIDEqual ids (Suc i) results acc = Panic msg"
      using Cons.IH [of j' "Suc i"] by blast
    show ?thesis
    proof (cases r)
      case None
      then show ?thesis using ih by simp
    next
      case (Some b')
      then show ?thesis using ih by simp
    qed
  qed
qed


lemma versionsLoop_no_error: "versionsLoop isIDEqual ids i results acc \<noteq> Ret (Inl err)"
proof (induction results arbitrary: i acc)
  case Nil
  then show ?case by simp
next
  case (Cons r results)
  then show ?case by (cases r) auto
qed

text \<open>
  C4, as amended. When the remote call succeeds: \<open>getVersionsForPages\<close> returns an error
  whenever the response does not hold exactly one result per id; when the counts agree
  and a non-nil result at some position has an id that \<open>isIDEqual\<close> tells apart from the
  normalized requested id at that position, it does not return an error: it panics.
\<close>

theorem versions_count_or_order:
  assumes "GetBlockRecords (map normalizeID ids0) = Inr results"
  shows "(length results \<noteq> length ids0 \<longrightarrow>
            snd (getVersionsForPages normalizeID isIDEqual GetBlockRecords ids0)
              = Ret (Inl (ResultCountMismatch (length results) (length ids0))))
       \<and> (length results = length ids0 \<and>
            (\<exists>i b. i < length ids0 \<and> results ! i = Some b \<and>
                   \<not> isIDEqual (normalizeID (ids0 ! i)) (ID b)) \<longrightarrow>
            (\<exists>msg. snd (getVersionsForPages normalizeID isIDEqual GetBlockRecords ids0)
                     = Panic msg))"
proof (intro conjI impI)
  assume "length results \<noteq> length ids0"
  with assms show "snd (getVersionsForPages normalizeID isIDEqual GetBlockRecords ids0)
              = Ret (Inl (ResultCountMismatch (length results) (length ids0)))"
    by (simp add: getVersionsForPages_def normalizeIDS_def)
next
  assume a: "length results = length ids0 \<and>
            (\<exists>i b. i < length ids0 \<and> results ! i = Some b \<and>
                   \<not> isIDEqual (normalizeID (ids0 ! i)) (ID b))"
  then obtain i b where i: "i < length ids0" "results ! i = Some b"
      "\<not> isIDEqual (normalizeID (ids0 ! i)) (ID b)"
    by blast
  from a i have "\<exists>msg. versionsLoop isIDEqual (map normalizeID ids0) 0 results [] = Panic msg"
    by (intro versionsLoop_panics [of i results b]) simp_all
  with assms a show "\<exists>msg. snd (getVersionsForPages normalizeID isIDEqual GetBlockRecords ids0)
                     = Panic msg"
    by (simp add: getVersionsForPages_def normalizeIDS_def Let_def)
qed

theorem versions_count_or_order_witness:
  "snd (getVersionsForPages ToDashID_spec isIDEqual_spec (\<lambda>ids. Inr []) [idA])
     = Ret (Inl (ResultCountMismatch 0 1))
   \<and> (\<exists>msg. snd (getVersionsForPages ToDashID_spec isIDEqual_spec wrongOrder [idA]) = Panic msg)"
proof -
  have m: "\<not> isIDEqual_spec (ToDashID_spec idA) idB"
    by code_simp
  show ?thesis
    using versions_count_or_order [of "\<lambda>ids. Inr []" ToDashID_spec "[idA]" "[]" isIDEqual_spec]
      versions_count_or_order [of wrongOrder ToDashID_spec "[idA]"
        "[Some \<lparr>ID = idB, Version = 7\<rparr>]" isIDEqual_spec] m
    by (simp add: wrongOrder_def)
qed

text \<open>
  C4 as stated fails: one id asked, one block with another id answered, and the call
  panics instead of returning an error.
\<close>

theorem wrong_order_panics:
  "snd (getVersionsForPages ToDashID_spec isIDEqual_spec wrongOrder [idA])
     = Panic (''got result in the wrong order, ids[i]: '' @ DashID nidA @ '', id: '' @ idB)"
  by code_simp




lemma idA_normal: "ToNoDashID_spec idA = idA" "ToNoDashID_spec (ToDashID_spec idA) = idA"
  by code_simp+



text \<open>
  A version map that was never made: the freshness check asks the oracle and then
  panics at the assignment to the nil map.
\<close>

lemma nil_version_map_panics:
  "fst (canReturnCachedPage ToNoDashID_spec ToDashID_spec isIDEqual_spec pageGone
          (freshClient\<lparr>IdToPageLatestVersion := None\<rparr>) (Some pageA))
     = Panic ''assignment to entry in nil map''"
  using idA_normal
  by (simp add: canReturnCachedPage_def updateVersionsForPages_def getVersionsForPages_def
        normalizeIDS_def latestVersion_def freshClient_def demoClient_def pageA_def pageGone_def
        Let_def)

section \<open>Text spans: shape errors\<close>










text \<open>
  Conversely, an input of the expected shape is parsed, provided that marshalling the
  maps of its date attributes succeeds.
\<close>

lemma attrValues_good:
  "list_all is_string vs \<Longrightarrow> \<exists>attr. attrValues vs acc = Inr attr"
proof (induction vs arbitrary: acc)
  case Nil
  then show ?case by simp
next
  case (Cons v vs)
  then show ?case by (cases v) (simp_all add: is_string_def)
qed

lemma attribute_good:
  assumes "good_attr (RList a)" and "\<forall>m. \<exists>js. M m = Inr js"
  shows "\<exists>b1. parseTextSpanAttribute M b a = Inr b1"
proof -
  from assms(1) obtain s rest where a: "a = RString s # rest"
    by (auto simp: good_attr_def split: list.splits raw.splits)
  show ?thesis
  proof (cases "s = Attr2Date")
    case True
    with assms(1) a obtain m where "rest = [RMap m]"
      by (auto simp: good_attr_def split: list.splits raw.splits)
    moreover obtain js where "M m = Inr js"
      using assms(2) by blast
    ultimately show ?thesis
      using a True by (simp add: parseTextSpanAttribute_def)
  next
    case False
    with assms(1) a have "list_all is_string rest"
      by (simp add: good_attr_def)
    from attrValues_good [OF this, of "[s]"] show ?thesis
      using a False by (auto simp: parseTextSpanAttribute_def)
  qed
qed

lemma attributes_good:
  assumes "\<forall>m. \<exists>js. M m = Inr js"
  shows "list_all good_attr attrs \<Longrightarrow> \<exists>b1. parseTextSpanAttributes M b attrs = Inr b1"
proof (induction attrs arbitrary: b)
  case Nil
  then show ?case by simp
next
  case (Cons x attrs)
  then obtain a where x: "x = RList a" and g: "good_attr (RList a)"
    by (cases x) (simp_all add: good_attr_def)
  from attribute_good [OF g assms, of b] obtain b1 where "parseTextSpanAttribute M b a = Inr b1"
    by blast
  moreover from Cons have "\<exists>b2. parseTextSpanAttributes M b1 attrs = Inr b2"
    by simp
  ultimately show ?case using x by simp
qed

lemma span_good:
  assumes "\<forall>m. \<exists>js. M m = Inr js" and "good_span (RList a)"
  shows "\<exists>span. parseTextSpan M a = Inr span"
proof -
  have "(\<exists>t. a = [RString t]) \<or>
        (\<exists>t attrs. a = [RString t, RList attrs] \<and> list_all good_attr attrs)"
  proof (cases a)
    case Nil
    with assms(2) show ?thesis by (simp add: good_span_def)
  next
    case (Cons x rest)
    with assms(2) obtain t where x: "x = RString t"
      by (cases x) (simp_all add: good_span_def)
    show ?thesis
    proof (cases rest)
      case Nil
      with Cons x show ?thesis by simp
    next
      case r: (Cons y zs)
      with assms(2) Cons x obtain attrs where y: "y = RList attrs"
        by (cases y) (simp_all add: good_span_def)
      with assms(2) Cons x r have "zs = [] \<and> list_all good_attr attrs"
        by (cases zs) (simp_all add: good_span_def)
      with Cons x r y show ?thesis by simp
    qed
  qed
  then consider t where "a = [RString t]"
    | t attrs where "a = [RString t, RList attrs]" "list_all good_attr attrs"
    by blast
  then show ?thesis
  proof cases
    case 1
    then show ?thesis by (simp add: parseTextSpan_def)
  next
    case 2
    from attributes_good [OF assms(1) 2(2), of "\<lparr>Text = t, Attrs = []\<rparr>"] show ?thesis
      using 2(1) by (simp add: parseTextSpan_def)
  qed
qed

lemma spans_good:
  assumes "\<forall>m. \<exists>js. M m = Inr js"
  shows "list_all good_span vs \<Longrightarrow> \<exists>spans. parseSpans M vs res = Inr spans"
proof (induction vs arbitrary: res)
  case Nil
  then show ?case by simp
next
  case (Cons v vs)
  then obtain a where v: "v = RList a" and g: "good_span (RList a)"
    by (cases v) (simp_all add: good_span_def)
  from span_good [OF assms g] obtain span where "parseTextSpan M a = Inr span"
    by blast
  moreover from Cons have "\<exists>spans. parseSpans M vs (res @ [span]) = Inr spans"
    by simp
  ultimately show ?case using v by simp
qed

lemma raw_good:
  assumes "\<forall>m. \<exists>js. M m = Inr js" and "good_raw rawv"
  shows "\<exists>spans. ParseTextSpans M rawv = Inr spans"
proof -
  from assms(2) obtain a where "rawv = RList a" "a \<noteq> []" "list_all good_span a"
    by (cases rawv) (simp_all add: good_raw_def)
  then show ?thesis
    using spans_good [OF assms(1), of a "[]"] by (simp add: ParseTextSpans_def)
qed




section \<open>Downloading a page through the cache\<close>

lemma sameScope_refl: "sameScope c c"
  by (simp add: sameScope_def)

lemma sameScope_trans: "sameScope a b \<Longrightarrow> sameScope b c \<Longrightarrow> sameScope a c"
  by (simp add: sameScope_def)

lemma doPostMaybeCached_scope:
  assumes "currPageID c \<noteq> None"
  shows "\<exists>r c1 e1. doPostMaybeCached c e uri body = (Ret r, c1, e1) \<and> sameScope c c1"
proof -
  from assms obtain nid where n: "currPageID c = Some nid" by blast
  obtain d ok where t: "tryReadFromCache c ''POST'' uri body = Ret (d, ok)"
    using n by (cases "NoReadCache c") (auto simp: tryReadFromCache_def Let_def intro: prod.exhaust)
  show ?thesis
  proof (cases ok)
    case True
    with t show ?thesis
      by (simp add: doPostMaybeCached_def sameScope_def)
  next
    case False
    obtain r e1 where p: "doPostInternal e uri body = (r, e1)"
      by (cases "doPostInternal e uri body")
    with t False n show ?thesis
      by (cases r) (simp_all add: doPostMaybeCached_def sameScope_def cacheRequest_def)
  qed
qed

lemma runDownload_scope:
  "httpPostOverride c = Some DoPostMaybeCached \<Longrightarrow> currPageID c \<noteq> None \<Longrightarrow>
   \<exists>res c1 e1. runDownload t c e = (Ret res, c1, e1) \<and> sameScope c c1"
proof (induction t arbitrary: c e)
  case (Finish r)
  then show ?case by (simp add: sameScope_refl)
next
  case (Request uri body k)
  from doPostMaybeCached_scope [OF Request.prems(2), of e uri body]
  obtain r c1 e1 where p: "doPostMaybeCached c e uri body = (Ret r, c1, e1)" and s: "sameScope c c1"
    by blast
  from s Request.prems have "httpPostOverride c1 = Some DoPostMaybeCached" "currPageID c1 \<noteq> None"
    by (simp_all add: sameScope_def)
  from Request.IH [OF _ this, of "k r" e1]
  obtain res c2 e2 where "runDownload (k r) c1 e1 = (Ret res, c2, e2)" "sameScope c1 c2"
    by auto
  with p s Request.prems(1) show ?case
    using sameScope_trans [of c c1 c2] by (simp add: clientPost_def)
qed

lemma writeCache_scope:
  assumes "currPageID c \<noteq> None"
  shows "\<exists>w c1 e1. writeCacheForCurrPage c e = (Ret w, c1, e1) \<and> sameScope c c1"
proof (cases "currPageRequests c = []")
  case True
  then show ?thesis by (simp add: writeCacheForCurrPage_def sameScope_refl)
next
  case False
  from assms obtain nid where n: "currPageID c = Some nid" by blast
  obtain buf where b: "serializeEntries (currPageRequests c) [] = Inr buf"
    using serializeEntries_total by blast
  obtain w e1 where "WriteFile e (Join (CacheDir c) (NoDashID nid @ ''.txt'')) buf = (w, e1)"
    by (cases "WriteFile e (Join (CacheDir c) (NoDashID nid @ ''.txt'')) buf")
  with False n b show ?thesis
    by (cases w) (simp_all add: writeCacheForCurrPage_def sameScope_def Let_def)
qed

lemma DownloadPage_returns:
  "\<exists>res c1 e1. DownloadPage NewNotionID dl c e pageID = (Ret res, c1, e1)"
proof (cases "NewNotionID pageID")
  case None
  then show ?thesis by (simp add: DownloadPage_def)
next
  case (Some nid)
  let ?c2 = "c\<lparr>currPageRequests := [], currPageID := Some nid,
               httpPostOverride := Some DoPostMaybeCached\<rparr>"
  from runDownload_scope [of ?c2 "dl pageID" e]
  obtain res c3 e3 where r: "runDownload (dl pageID) ?c2 e = (Ret res, c3, e3)"
    and s: "sameScope ?c2 c3"
    by auto
  from writeCache_scope [of c3 e3] s
  obtain w c4 e4 where w: "writeCacheForCurrPage c3 e3 = (Ret w, c4, e4)"
    by (auto simp: sameScope_def)
  from Some r w show ?thesis
    by (simp add: DownloadPage_def Let_def)
qed



lemma NewNotionID_spec_idA: "NewNotionID_spec idA = Some nidA"
  by code_simp



lemma runDownload_cached:
  "httpPostOverride c = Some DoPostMaybeCached \<Longrightarrow> currPageID c = Some nid \<Longrightarrow>
   \<not> NoReadCache c \<Longrightarrow> allFromCache (entriesOf c nid) t \<Longrightarrow>
   runDownload t c e =
     (Ret (fst (replay (entriesOf c nid) t)),
      c\<lparr>RequestsFromCache := RequestsFromCache c + int (snd (replay (entriesOf c nid) t))\<rparr>, e)"
proof (induction t arbitrary: c)
  case (Finish r)
  then show ?case by simp
next
  case (Request uri body k)
  let ?rs = "entriesOf c nid"
  let ?d = "fst (findEntry ?rs ''POST'' uri body)"
  let ?c1 = "c\<lparr>RequestsFromCache := RequestsFromCache c + 1\<rparr>"
  from Request.prems have hit: "snd (findEntry ?rs ''POST'' uri body)"
    and rest: "allFromCache ?rs (k (Inr ?d))"
    by simp_all
  have t: "tryReadFromCache c ''POST'' uri body = Ret (?d, True)"
    using Request.prems(2,3) hit
    by (simp add: tryReadFromCache_def entriesOf_def Let_def prod_eq_iff)
  then have p: "clientPost c e uri body = (Ret (Inr ?d), ?c1, e)"
    using Request.prems(1) by (simp add: clientPost_def doPostMaybeCached_def)
  have e1: "entriesOf ?c1 nid = ?rs"
    by (simp add: entriesOf_def)
  have "runDownload (k (Inr ?d)) ?c1 e =
     (Ret (fst (replay (entriesOf ?c1 nid) (k (Inr ?d)))),
      ?c1\<lparr>RequestsFromCache := RequestsFromCache ?c1
            + int (snd (replay (entriesOf ?c1 nid) (k (Inr ?d))))\<rparr>, e)"
    using Request.prems rest by (intro Request.IH) (simp_all add: e1)
  then show ?case
    using p by (simp add: e1 split: prod.splits)
qed

lemma DownloadPage_cached:
  assumes "\<not> NoReadCache c" and "NewNotionID pageID = Some nid"
    and "allFromCache (entriesOf c nid) (dl pageID)"
  shows "DownloadPage NewNotionID dl c e pageID =
     (Ret (fst (replay (entriesOf c nid) (dl pageID))),
      c\<lparr>currPageRequests := [], currPageID := None,
        RequestsFromCache := RequestsFromCache c + int (snd (replay (entriesOf c nid) (dl pageID)))\<rparr>,
      e)"
proof -
  let ?c2 = "c\<lparr>currPageRequests := [], currPageID := Some nid,
               httpPostOverride := Some DoPostMaybeCached\<rparr>"
  have e2: "entriesOf ?c2 nid = entriesOf c nid"
    by (simp add: entriesOf_def)
  have "runDownload (dl pageID) ?c2 e =
     (Ret (fst (replay (entriesOf ?c2 nid) (dl pageID))),
      ?c2\<lparr>RequestsFromCache := RequestsFromCache ?c2
            + int (snd (replay (entriesOf ?c2 nid) (dl pageID)))\<rparr>, e)"
    using assms by (intro runDownload_cached) (simp_all add: e2)
  then show ?thesis
    using assms(2) by (simp add: DownloadPage_def Let_def e2 writeCacheForCurrPage_def)
qed

lemma DownloadPage_index:
  "pageIDToEntries (fst (snd (DownloadPage NewNotionID dl c e pageID))) = pageIDToEntries c"
proof (cases "NewNotionID pageID")
  case None
  then show ?thesis by (simp add: DownloadPage_def)
next
  case (Some nid)
  let ?c2 = "c\<lparr>currPageRequests := [], currPageID := Some nid,
               httpPostOverride := Some DoPostMaybeCached\<rparr>"
  from runDownload_scope [of ?c2 "dl pageID" e]
  obtain res c3 e3 where r: "runDownload (dl pageID) ?c2 e = (Ret res, c3, e3)"
    and s: "sameScope ?c2 c3"
    by auto
  from writeCache_scope [of c3 e3] s
  obtain w c4 e4 where w: "writeCacheForCurrPage c3 e3 = (Ret w, c4, e4)" and s4: "sameScope c3 c4"
    by (auto simp: sameScope_def)
  from Some r w s s4 show ?thesis
    by (simp add: DownloadPage_def Let_def sameScope_def)
qed

text \<open>
  C2, as amended. With \<open>NoReadCache\<close> false, when the index loaded at construction
  holds a matching record for every request that the download of a valid page id
  issues, two calls of \<open>DownloadPage\<close> on that id in one session issue no live request
  (the environment and \<open>RequestsNotFromCache\<close> stay as they are) and return the same
  result, computed from the responses of the first matching records. \<open>DownloadPage\<close>
  never changes the index: what was fetched live in a session is not read back in it.
\<close>

theorem second_download_from_loaded_cache:
  "(\<not> NoReadCache c \<and> NewNotionID pageID = Some nid \<and>
    allFromCache (entriesOf c nid) (dl pageID) \<longrightarrow>
      (\<exists>res c1 c2.
         DownloadPage NewNotionID dl c e pageID = (Ret res, c1, e) \<and>
         DownloadPage NewNotionID dl c1 e pageID = (Ret res, c2, e) \<and>
         res = fst (replay (entriesOf c nid) (dl pageID)) \<and>
         RequestsNotFromCache c1 = RequestsNotFromCache c \<and>
         RequestsNotFromCache c2 = RequestsNotFromCache c))
   \<and> pageIDToEntries (fst (snd (DownloadPage NewNotionID dl c e pageID))) = pageIDToEntries c"
proof (intro conjI impI)
  assume a: "\<not> NoReadCache c \<and> NewNotionID pageID = Some nid \<and>
    allFromCache (entriesOf c nid) (dl pageID)"
  let ?n = "int (snd (replay (entriesOf c nid) (dl pageID)))"
  let ?c1 = "c\<lparr>currPageRequests := [], currPageID := None,
               RequestsFromCache := RequestsFromCache c + ?n\<rparr>"
  have e1: "entriesOf ?c1 nid = entriesOf c nid"
    by (simp add: entriesOf_def)
  have d1: "DownloadPage NewNotionID dl c e pageID
            = (Ret (fst (replay (entriesOf c nid) (dl pageID))), ?c1, e)"
    using a by (intro DownloadPage_cached) simp_all
  have d2: "DownloadPage NewNotionID dl ?c1 e pageID
            = (Ret (fst (replay (entriesOf ?c1 nid) (dl pageID))),
               ?c1\<lparr>currPageRequests := [], currPageID := None,
                  RequestsFromCache := RequestsFromCache ?c1
                     + int (snd (replay (entriesOf ?c1 nid) (dl pageID)))\<rparr>, e)"
    using a by (intro DownloadPage_cached) (simp_all add: e1)
  show "\<exists>res c1 c2.
         DownloadPage NewNotionID dl c e pageID = (Ret res, c1, e) \<and>
         DownloadPage NewNotionID dl c1 e pageID = (Ret res, c2, e) \<and>
         res = fst (replay (entriesOf c nid) (dl pageID)) \<and>
         RequestsNotFromCache c1 = RequestsNotFromCache c \<and>
         RequestsNotFromCache c2 = RequestsNotFromCache c"
    using d1 d2 by (simp add: e1)
next
  show "pageIDToEntries (fst (snd (DownloadPage NewNotionID dl c e pageID))) = pageIDToEntries c"
    by (rule DownloadPage_index)
qed


theorem second_download_from_loaded_cache_witness:
  "\<exists>res c1 c2.
     DownloadPage NewNotionID_spec onePost cachedClient demoEnv idA = (Ret res, c1, demoEnv) \<and>
     DownloadPage NewNotionID_spec onePost c1 demoEnv idA = (Ret res, c2, demoEnv) \<and>
     res = Inr \<lparr>PageID = idA, RootVersion = 1, SubPages = []\<rparr> \<and>
     RequestsNotFromCache c1 = 0 \<and> RequestsNotFromCache c2 = 0"
proof -
  have "allFromCache (entriesOf cachedClient nidA) (onePost idA)"
    by (simp add: entriesOf_def cachedClient_def demoClient_def nidA_def onePost_def)
  moreover have "fst (replay (entriesOf cachedClient nidA) (onePost idA))
                 = Inr \<lparr>PageID = idA, RootVersion = 1, SubPages = []\<rparr>"
    by (simp add: entriesOf_def cachedClient_def demoClient_def nidA_def onePost_def)
  moreover have "\<not> NoReadCache cachedClient" "RequestsNotFromCache cachedClient = 0"
    by (simp_all add: cachedClient_def demoClient_def)
  ultimately show ?thesis
    using second_download_from_loaded_cache [of cachedClient NewNotionID_spec idA nidA onePost demoEnv]
      NewNotionID_spec_idA
    by simp
qed

text \<open>
  C2 as stated fails: a client that loaded an empty directory sends the request of the
  page live in the first call and again in the second.
\<close>

theorem second_download_goes_live_again:
  "\<not> NoReadCache demoClient \<and> \<not> RedownloadNewerVersions demoClient
   \<and> RequestsNotFromCache (fst (snd firstRun)) = 1
   \<and> RequestsNotFromCache (fst (snd secondRun)) = 2
   \<and> liveLog (snd (snd firstRun)) = [(''/api/v3/loadPageChunk'', ''{}'')]
   \<and> liveLog (snd (snd secondRun))
       = [(''/api/v3/loadPageChunk'', ''{}''), (''/api/v3/loadPageChunk'', ''{}'')]"
  by code_simp

section \<open>Loading the cache directory: errors\<close>

lemma loadEntries_clean_prefix:
  "list_all (loadsCleanly NewNotionID e dir) xs \<Longrightarrow>
   \<exists>c1. loadEntries NewNotionID e dir (xs @ ys) c = loadEntries NewNotionID e dir ys c1"
proof (induction xs arbitrary: c)
  case Nil
  then show ?case by auto
next
  case (Cons x xs)
  obtain name regular where x: "x = (name, regular)" by (cases x)
  from Cons.prems have clean: "loadsCleanly NewNotionID e dir x"
    and rest: "list_all (loadsCleanly NewNotionID e dir) xs"
    by simp_all
  show ?case
  proof (cases "isCandidate NewNotionID x")
    case False
    then have "loadEntries NewNotionID e dir ((x # xs) @ ys) c
               = loadEntries NewNotionID e dir (xs @ ys) c"
      using x by (auto simp: isCandidate_def)
    with Cons.IH [OF rest, of c] show ?thesis by simp
  next
    case True
    then obtain nid where nid: "NewNotionID (removeTxt name) = Some nid"
      and reg: "regular" "HasSuffix name ''.txt''"
      using x by (auto simp: isCandidate_def)
    from clean True x obtain d rs where d: "ReadFile e (Join dir name) = Inr d"
      "deserializeCacheEntry d = Inr rs"
      by (auto simp: loadsCleanly_def split: sum.splits)
    let ?c1 = "c\<lparr>pageIDToEntries := (pageIDToEntries c)(NoDashID nid \<mapsto> rs)\<rparr>"
    have "loadEntries NewNotionID e dir ((x # xs) @ ys) c
          = loadEntries NewNotionID e dir (xs @ ys) ?c1"
      using x nid reg d by simp
    with Cons.IH [OF rest, of ?c1] show ?thesis by simp
  qed
qed

text \<open>
  C5, as amended. \<open>readRequestsCacheFile\<close> returns the error of a failed directory
  creation or directory read. Otherwise it goes through the entries in order: an entry
  that is not a regular file, or whose name does not end in \<open>.txt\<close> or does not parse as
  an identity, is skipped silently; the first candidate cache file that cannot be read,
  or whose content fails record deserialization, makes the load fail with that error;
  when every entry loads cleanly the load succeeds.
\<close>

theorem load_fails_on_malformed_file:
  "(\<forall>err. mkdirFault e dir = Some err \<longrightarrow>
       fst (readRequestsCacheFile NewNotionID c e dir) = Some err)
   \<and> (\<forall>err. mkdirFault e dir = None \<and> readDirFault e dir = Some err \<longrightarrow>
       fst (readRequestsCacheFile NewNotionID c e dir) = Some err)
   \<and> (mkdirFault e dir = None \<and> readDirFault e dir = None \<longrightarrow>
        (list_all (loadsCleanly NewNotionID e dir) (listing e dir) \<longrightarrow>
           fst (readRequestsCacheFile NewNotionID c e dir) = None)
        \<and> (\<forall>before name after err.
              listing e dir = before @ (name, True) # after \<and>
              list_all (loadsCleanly NewNotionID e dir) before \<and>
              isCandidate NewNotionID (name, True) \<and>
              (ReadFile e (Join dir name) = Inl err \<or>
               (\<exists>d. ReadFile e (Join dir name) = Inr d \<and> deserializeCacheEntry d = Inl err))
              \<longrightarrow> fst (readRequestsCacheFile NewNotionID c e dir) = Some err))"
proof (intro conjI allI impI)
  fix err
  assume "mkdirFault e dir = Some err"
  then show "fst (readRequestsCacheFile NewNotionID c e dir) = Some err"
    by (simp add: readRequestsCacheFile_def)
next
  fix err
  assume "mkdirFault e dir = None \<and> readDirFault e dir = Some err"
  then show "fst (readRequestsCacheFile NewNotionID c e dir) = Some err"
    by (simp add: readRequestsCacheFile_def)
next
  assume ok: "mkdirFault e dir = None \<and> readDirFault e dir = None"
    and clean: "list_all (loadsCleanly NewNotionID e dir) (listing e dir)"
  from loadEntries_clean_prefix [OF clean, of "[]" "c\<lparr>pageIDToEntries := Map.empty\<rparr>"]
  show "fst (readRequestsCacheFile NewNotionID c e dir) = None"
    using ok by (auto simp: readRequestsCacheFile_def)
next
  fix before name after err
  assume ok: "mkdirFault e dir = None \<and> readDirFault e dir = None"
    and a: "listing e dir = before @ (name, True) # after \<and>
              list_all (loadsCleanly NewNotionID e dir) before \<and>
              isCandidate NewNotionID (name, True) \<and>
              (ReadFile e (Join dir name) = Inl err \<or>
               (\<exists>d. ReadFile e (Join dir name) = Inr d \<and> deserializeCacheEntry d = Inl err))"
  from a obtain nid where nid: "NewNotionID (removeTxt name) = Some nid"
    and suf: "HasSuffix name ''.txt''"
    by (auto simp: isCandidate_def)
  from a loadEntries_clean_prefix [of NewNotionID e dir before "(name, True) # after"
      "c\<lparr>pageIDToEntries := Map.empty\<rparr>"]
  obtain c1 where "loadEntries NewNotionID e dir (listing e dir) (c\<lparr>pageIDToEntries := Map.empty\<rparr>)
                   = loadEntries NewNotionID e dir ((name, True) # after) c1"
    by auto
  moreover have "fst (loadEntries NewNotionID e dir ((name, True) # after) c1) = Some err"
    using a nid suf by auto
  ultimately show "fst (readRequestsCacheFile NewNotionID c e dir) = Some err"
    using ok by (simp add: readRequestsCacheFile_def)
qed

lemma malformed_facts:
  "mkdirFault malformedCache ''cache'' = None" "readDirFault malformedCache ''cache'' = None"
  "listing malformedCache ''cache'' = [(''notes.txt'', True), (''assets'', False)] @ (idA @ ''.txt'', True) # []"
  "ReadFile malformedCache (Join ''cache'' (idA @ ''.txt'')) = Inr (''12 other'' @ [LF] @ ''Method: GET'' @ [LF])"
  by (simp_all add: malformedCache_def demoEnv_def ReadFile_def Join_def pathA_def idA_def)

lemma malformed_more:
  "list_all (loadsCleanly NewNotionID_spec malformedCache ''cache'') [(''notes.txt'', True), (''assets'', False)]"
  "isCandidate NewNotionID_spec (idA @ ''.txt'', True)"
  "deserializeCacheEntry (''12 other'' @ [LF] @ ''Method: GET'' @ [LF]) = Inl (UnexpectedRecordType ''other'')"
  by code_simp+

theorem load_fails_on_malformed_file_witness:
  "fst (readRequestsCacheFile NewNotionID_spec demoClient malformedCache ''cache'')
     = Some (UnexpectedRecordType ''other'')
   \<and> list_all (loadsCleanly NewNotionID_spec demoEnv ''cache'') (listing demoEnv ''cache'')
   \<and> fst (readRequestsCacheFile NewNotionID_spec demoClient demoEnv ''cache'') = None"
proof -
  have "list_all (loadsCleanly NewNotionID_spec demoEnv ''cache'') (listing demoEnv ''cache'')"
    by (simp add: demoEnv_def)
  moreover have "mkdirFault demoEnv ''cache'' = None" "readDirFault demoEnv ''cache'' = None"
    by (simp_all add: demoEnv_def)
  ultimately show ?thesis
    using load_fails_on_malformed_file [of malformedCache "''cache''" NewNotionID_spec demoClient]
      load_fails_on_malformed_file [of demoEnv "''cache''" NewNotionID_spec demoClient]
      malformed_facts malformed_more
    by blast
qed

text \<open>
  C5 as stated fails: no I/O operation fails, the cache file of page \<open>idA\<close> holds a
  record of another type, and the load returns an error instead of skipping the file.
\<close>

theorem malformed_file_fails_the_load:
  "fst (readRequestsCacheFile NewNotionID_spec demoClient malformedCache ''cache'')
     = Some (UnexpectedRecordType ''other'')
   \<and> mkdirFault malformedCache ''cache'' = None \<and> readDirFault malformedCache ''cache'' = None
   \<and> readFault malformedCache pathA = None
   \<and> ReadFile malformedCache pathA = Inr (''12 other'' @ [LF] @ ''Method: GET'' @ [LF])"
  by code_simp

section \<open>The crawl: termination and visiting once\<close>

lemma crawlExt_queue: "crawlExt N toVisit m ext \<Longrightarrow> x \<in> set toVisit \<Longrightarrow> N x \<in> fst ` set m"
  by (simp add: crawlExt_def)

lemma crawlExt_closed:
  "crawlExt N toVisit m ext \<Longrightarrow> (k, p) \<in> set ext \<Longrightarrow> x \<in> set (SubPages p) \<Longrightarrow> N x \<in> fst ` set m"
  unfolding crawlExt_def by blast

lemma crawlExt_least:
  assumes "crawlExt N toVisit m ext" and "\<And>x. x \<in> set toVisit \<Longrightarrow> N x \<in> R"
    and "\<And>k p x. (k, p) \<in> set ext \<Longrightarrow> k \<in> R \<Longrightarrow> x \<in> set (SubPages p) \<Longrightarrow> N x \<in> R"
  shows "fst ` set ext \<subseteq> R"
proof -
  from assms(3) have "\<forall>(k, p) \<in> set ext. k \<in> R \<longrightarrow> (\<forall>x \<in> set (SubPages p). N x \<in> R)"
    by blast
  moreover from assms(2) have "\<forall>x \<in> set toVisit. N x \<in> R"
    by blast
  ultimately show ?thesis
    using assms(1) unfolding crawlExt_def by blast
qed

lemma crawlExt_skip:
  assumes "crawlExt N rest m ext" and "N first \<in> fst ` set m"
  shows "crawlExt N (first # rest) m ext"
  using assms by (simp add: crawlExt_def)

lemma crawlExt_visit:
  assumes e: "crawlExt N (rest @ SubPages page) m ext"
    and m: "(N first, page) \<in> set m"
  shows "crawlExt N (first # rest) m ((N first, page) # ext)"
  unfolding crawlExt_def
proof (intro conjI allI impI)
  have "N first \<in> fst ` set m"
    using m by force
  moreover have "\<forall>x \<in> set rest. N x \<in> fst ` set m"
    using crawlExt_queue [OF e] by simp
  ultimately show "\<forall>x \<in> set (first # rest). N x \<in> fst ` set m"
    by simp
next
  have "\<forall>x \<in> set (SubPages page). N x \<in> fst ` set m"
    using crawlExt_queue [OF e] by simp
  moreover have "\<forall>(k, p) \<in> set ext. \<forall>x \<in> set (SubPages p). N x \<in> fst ` set m"
    using crawlExt_closed [OF e] by blast
  ultimately
  show "\<forall>(k, p) \<in> set ((N first, page) # ext). \<forall>x \<in> set (SubPages p). N x \<in> fst ` set m"
    by simp
next
  fix R
  assume a: "(\<forall>x \<in> set (first # rest). N x \<in> R) \<and>
       (\<forall>(k, p) \<in> set ((N first, page) # ext). k \<in> R \<longrightarrow> (\<forall>x \<in> set (SubPages p). N x \<in> R))"
  then have f: "N first \<in> R"
    by simp
  with a have sp: "\<forall>x \<in> set (SubPages page). N x \<in> R"
    by simp
  from a have c: "\<And>k p x. (k, p) \<in> set ext \<Longrightarrow> k \<in> R \<Longrightarrow> x \<in> set (SubPages p) \<Longrightarrow> N x \<in> R"
    by auto
  from a sp have q: "\<And>x. x \<in> set (rest @ SubPages page) \<Longrightarrow> N x \<in> R"
    by auto
  from crawlExt_least [OF e q c] have "fst ` set ext \<subseteq> R"
    by simp
  with f show "fst ` set ((N first, page) # ext) \<subseteq> R"
    by simp
qed

lemma crawlPost_skip:
  assumes post: "crawlPost N download rest downloaded out calls1"
    and seen: "N first \<in> fst ` set downloaded"
  shows "crawlPost N download (first # rest) downloaded out calls1"
  unfolding crawlPost_def
proof (intro conjI allI impI)
  show "distinct calls1"
    using post by (simp add: crawlPost_def)
next
  fix m
  assume "out = Ret (Inr m)"
  with post obtain ext where ext: "m = downloaded @ ext" "calls1 = map fst m"
    "crawlExt N rest m ext" "list_all (returned download) ext"
    unfolding crawlPost_def by blast
  from seen ext(1) have "N first \<in> fst ` set m"
    by auto
  from crawlExt_skip [OF ext(3) this] ext(1,2,4)
  show "\<exists>ext. m = downloaded @ ext \<and> calls1 = map fst m \<and> crawlExt N (first # rest) m ext \<and>
          list_all (returned download) ext"
    by blast
qed

lemma crawlPost_visit:
  assumes post: "crawlPost N download (rest @ SubPages page) (downloaded @ [(N first, page)]) out calls1"
    and ret: "download (N first) s = (Ret (Inr page), s1)"
  shows "crawlPost N download (first # rest) downloaded out calls1"
  unfolding crawlPost_def
proof (intro conjI allI impI)
  show "distinct calls1"
    using post by (simp add: crawlPost_def)
next
  fix m
  assume "out = Ret (Inr m)"
  with post obtain ext where ext: "m = (downloaded @ [(N first, page)]) @ ext"
    "calls1 = map fst m" "crawlExt N (rest @ SubPages page) m ext"
    "list_all (returned download) ext"
    unfolding crawlPost_def by blast
  have m: "m = downloaded @ (N first, page) # ext"
    using ext(1) by simp
  then have "(N first, page) \<in> set m"
    by simp
  moreover have "list_all (returned download) ((N first, page) # ext)"
    using ext(4) ret by (auto simp: returned_def)
  ultimately
  show "\<exists>ext. m = downloaded @ ext \<and> calls1 = map fst m \<and> crawlExt N (first # rest) m ext \<and>
          list_all (returned download) ext"
    using crawlExt_visit [OF ext(3)] m ext(2) by blast
qed


lemma insertPage_new: "map_of m k = None \<Longrightarrow> insertPage k p m = m @ [(k, p)]"
  by (simp add: insertPage_def)

lemma crawlPost_done: "distinct (map fst downloaded) \<Longrightarrow>
  crawlPost N download [] downloaded (Ret (Inr downloaded)) (map fst downloaded)"
  by (simp add: crawlPost_def crawlExt_def)

lemma crawlPost_failed:
  "distinct calls1 \<Longrightarrow> out = Panic msg \<or> out = Ret (Inl err) \<Longrightarrow>
   crawlPost N download toVisit downloaded out calls1"
  by (auto simp: crawlPost_def)

lemma crawlLoop_total:
  assumes fin: "finite U"
    and closed: "\<And>pid s p s1 x. pid \<in> U \<Longrightarrow> download pid s = (Ret (Inr p), s1) \<Longrightarrow>
                   x \<in> set (SubPages p) \<Longrightarrow> N x \<in> U"
  shows "\<forall>x \<in> set toVisit. N x \<in> U \<Longrightarrow> distinct (map fst downloaded) \<Longrightarrow>
         \<exists>out calls1 s1.
           crawlLoop N download after toVisit downloaded (map fst downloaded) s
             = Some (out, calls1, s1) \<and>
           crawlPost N download toVisit downloaded out calls1 \<and>
           failureCause download after out"
proof (induction "card (U - fst ` set downloaded)" arbitrary: toVisit downloaded s rule: less_induct)
  case less
  note outer = less.hyps
  from less.prems show ?case
  proof (induction toVisit)
    case Nil
    then show ?case
      by (subst crawlLoop.simps) (simp add: crawlPost_done failureCause_def)
  next
    case (Cons first rest)
    let ?pageID = "N first"
    let ?keys = "map fst downloaded"
    from Cons.prems have inU: "?pageID \<in> U" and restU: "\<forall>x \<in> set rest. N x \<in> U"
      and dist: "distinct ?keys"
      by simp_all
    show ?case
    proof (cases "map_of downloaded ?pageID")
      case (Some pg)
      then have "(?pageID, pg) \<in> set downloaded"
        by (rule map_of_SomeD)
      then have seen: "?pageID \<in> fst ` set downloaded"
        by force
      from Cons.IH [OF restU dist]
      obtain out calls1 s1 where
        r: "crawlLoop N download after rest downloaded ?keys s = Some (out, calls1, s1)"
        and p: "crawlPost N download rest downloaded out calls1"
        and fc: "failureCause download after out"
        by blast
      have "crawlLoop N download after (first # rest) downloaded ?keys s
            = crawlLoop N download after rest downloaded ?keys s"
        using Some by (subst crawlLoop.simps) simp
      with r crawlPost_skip [OF p seen] fc show ?thesis
        by simp
    next
      case None
      then have fresh: "?pageID \<notin> fst ` set downloaded"
        by (simp add: map_of_eq_None_iff)
      then have dist1: "distinct (?keys @ [?pageID])"
        using dist by simp
      obtain res s1 where d: "download ?pageID s = (res, s1)"
        by (cases "download ?pageID s")
      have unfold: "crawlLoop N download after (first # rest) downloaded ?keys s =
         (case (res, s1) of
            (Panic msg, s1) \<Rightarrow> Some (Panic msg, ?keys @ [?pageID], s1)
          | (Ret (Inl err), s1) \<Rightarrow> Some (Ret (Inl err), ?keys @ [?pageID], s1)
          | (Ret (Inr page), s1) \<Rightarrow>
              (case (case after of None \<Rightarrow> None | Some f \<Rightarrow> f page) of
                 Some err \<Rightarrow> Some (Ret (Inl err), ?keys @ [?pageID], s1)
               | None \<Rightarrow>
                   crawlLoop N download after (rest @ SubPages page)
                     (insertPage ?pageID page downloaded) (?keys @ [?pageID]) s1))"
        using None d by (subst crawlLoop.simps) (simp add: Let_def)
      show ?thesis
      proof (cases res)
        case (Panic msg)
        with d have "failureCause download after (Panic msg :: (error + (string \<times> Page) list) outcome)"
          by (auto simp: failureCause_def)
        with Panic unfold crawlPost_failed [OF dist1, of "Panic msg" msg] show ?thesis
          by simp
      next
        case (Ret r)
        show ?thesis
        proof (cases r)
          case (Inl err)
          with d Ret
          have "failureCause download after (Ret (Inl err) :: (error + (string \<times> Page) list) outcome)"
            by (auto simp: failureCause_def)
          with Inl Ret unfold crawlPost_failed [OF dist1, of "Ret (Inl err)" _ err] show ?thesis
            by simp
        next
          case (Inr page)
          show ?thesis
          proof (cases "case after of None \<Rightarrow> None | Some f \<Rightarrow> f page")
            case (Some err)
            then obtain f where "after = Some f" "f page = Some err"
              by (cases after) simp_all
            then
            have "failureCause download after (Ret (Inl err) :: (error + (string \<times> Page) list) outcome)"
              by (auto simp: failureCause_def)
            with Some Ret Inr unfold crawlPost_failed [OF dist1, of "Ret (Inl err)" _ err]
            show ?thesis
              by simp
          next
            case cb: None
            let ?downloaded = "downloaded @ [(?pageID, page)]"
            have ins: "insertPage ?pageID page downloaded = ?downloaded"
              using None by (rule insertPage_new)
            have keys1: "map fst ?downloaded = ?keys @ [?pageID]"
              by simp
            have eq: "U - fst ` set ?downloaded = (U - fst ` set downloaded) - {?pageID}"
              by auto
            have mem: "?pageID \<in> U - fst ` set downloaded"
              using inU fresh by simp
            have "finite (U - fst ` set downloaded)"
              using fin by simp
            from card_Diff1_less [OF this mem]
            have smaller: "card (U - fst ` set ?downloaded) < card (U - fst ` set downloaded)"
              unfolding eq .
            have sub: "\<forall>x \<in> set (SubPages page). N x \<in> U"
              using closed [OF inU] d Ret Inr by blast
            with restU have q: "\<forall>x \<in> set (rest @ SubPages page). N x \<in> U"
              by auto
            have dist2: "distinct (map fst ?downloaded)"
              using dist1 by simp
            from outer [OF smaller q dist2, of s1]
            obtain out calls1 s2 where
              r: "crawlLoop N download after (rest @ SubPages page) ?downloaded
                    (map fst ?downloaded) s1 = Some (out, calls1, s2)"
              and p: "crawlPost N download (rest @ SubPages page) ?downloaded out calls1"
              and fc: "failureCause download after out"
              by blast
            have "crawlLoop N download after (first # rest) downloaded ?keys s
                  = Some (out, calls1, s2)"
              using unfold Ret Inr cb ins r by (simp add: keys1)
            moreover have "download ?pageID s = (Ret (Inr page), s1)"
              using d Ret Inr by simp
            from crawlPost_visit [OF p this]
            have "crawlPost N download (first # rest) downloaded out calls1" .
            ultimately show ?thesis
              using fc by simp
          qed
        qed
      qed
    qed
  qed
qed


lemma reachable_keys:
  assumes "crawlExt N [start] m m"
  shows "reachable N m start = fst ` set m"
proof
  show "reachable N m start \<subseteq> fst ` set m"
  proof
    fix k
    assume "k \<in> reachable N m start"
    then show "k \<in> fst ` set m"
    proof induction
      case start
      show ?case using crawlExt_queue [OF assms, of start] by simp
    next
      case (step k p x)
      then show ?case using crawlExt_closed [OF assms] by blast
    qed
  qed
next
  show "fst ` set m \<subseteq> reachable N m start"
    by (rule crawlExt_least [OF assms]) (auto intro: reachable.intros)
qed

lemma sortedPages_nonempty:
  "m \<noteq> [] \<Longrightarrow> sortedPages m = Some (map (map_of m) (sort (map fst m)))"
  by (simp add: sortedPages_def)

lemma DownloadPagesRecursivelyWith_total:
  assumes fin: "finite U" and start: "N startPageID \<in> U"
    and closed: "\<And>pid s p s1 x. pid \<in> U \<Longrightarrow> download pid s = (Ret (Inr p), s1) \<Longrightarrow>
                   x \<in> set (SubPages p) \<Longrightarrow> N x \<in> U"
  shows "\<exists>out calls s1.
           DownloadPagesRecursivelyWith N download s startPageID after = Some (out, calls, s1) \<and>
           distinct calls \<and> failureCause download after out \<and>
           (\<forall>pages. out = Ret (Inr pages) \<longrightarrow>
              (\<exists>m ids. calls = map fst m \<and> list_all (returned download) m \<and>
                 set calls = reachable N m startPageID \<and>
                 sorted ids \<and> distinct ids \<and> set ids = set calls \<and>
                 pages = sortedPages m \<and> pages = Some (map (map_of m) ids) \<and>
                 list_all (\<lambda>pg. pg \<noteq> None) (map (map_of m) ids)))"
proof -
  have "\<forall>x \<in> set [startPageID]. N x \<in> U"
    using start by simp
  moreover have "distinct (map fst ([] :: (string \<times> Page) list))"
    by simp
  ultimately have "\<exists>out calls1 s1.
           crawlLoop N download after [startPageID] [] (map fst ([] :: (string \<times> Page) list)) s
             = Some (out, calls1, s1) \<and>
           crawlPost N download [startPageID] [] out calls1 \<and>
           failureCause download after out"
    using fin closed by (intro crawlLoop_total [of U download N]) blast+
  then obtain out calls s1 where
    r: "crawlLoop N download after [startPageID] [] [] s = Some (out, calls, s1)"
    and p: "crawlPost N download [startPageID] [] out calls"
    and fc: "failureCause download after out"
    by auto
  from p have dist: "distinct calls"
    by (simp add: crawlPost_def)
  show ?thesis
  proof (cases out)
    case (Panic msg)
    with r dist fc show ?thesis
      by (simp add: DownloadPagesRecursivelyWith_def failureCause_def)
  next
    case (Ret res)
    show ?thesis
    proof (cases res)
      case (Inl err)
      with Ret r dist fc show ?thesis
        by (simp add: DownloadPagesRecursivelyWith_def failureCause_def)
    next
      case (Inr m)
      with Ret p have calls: "calls = map fst m" and ext: "crawlExt N [startPageID] m m"
        and ret: "list_all (returned download) m"
        by (auto simp: crawlPost_def)
      from crawlExt_queue [OF ext, of startPageID] have ne: "m \<noteq> []"
        by auto
      let ?ids = "sort calls"
      have reach: "set calls = reachable N m startPageID"
        using reachable_keys [OF ext] calls by simp
      have "\<forall>k \<in> set calls. map_of m k \<noteq> None"
        using calls by (simp add: map_of_eq_None_iff)
      then have found: "list_all (\<lambda>pg. pg \<noteq> None) (map (map_of m) ?ids)"
        by (simp add: list_all_iff)
      have run: "DownloadPagesRecursivelyWith N download s startPageID after
            = Some (Ret (Inr (Some (map (map_of m) ?ids))), calls, s1)"
        using r Ret Inr sortedPages_nonempty [OF ne] calls
        by (simp add: DownloadPagesRecursivelyWith_def)
      have ids: "sorted ?ids \<and> distinct ?ids \<and> set ?ids = set calls"
        using dist by simp
      have "\<exists>m1 ids. calls = map fst m1 \<and> list_all (returned download) m1 \<and>
                 set calls = reachable N m1 startPageID \<and>
                 sorted ids \<and> distinct ids \<and> set ids = set calls \<and>
                 Some (map (map_of m) ?ids) = sortedPages m1 \<and>
                 Some (map (map_of m) ?ids) = Some (map (map_of m1) ids) \<and>
                 list_all (\<lambda>pg. pg \<noteq> None) (map (map_of m1) ids)"
        using calls ret reach ids found sortedPages_nonempty [OF ne]
        by (intro exI [of _ m] exI [of _ ?ids]) simp
      with run dist show ?thesis
        by (simp add: failureCause_def)
    qed
  qed
qed


lemma runDownload_mayReturn:
  "runDownload t c e = (Ret r, c1, e1) \<Longrightarrow> mayReturn t r"
proof (induction t arbitrary: c e)
  case (Finish r0)
  then show ?case by simp
next
  case (Request uri body k)
  obtain o1 c2 e2 where p: "clientPost c e uri body = (o1, c2, e2)"
    by (cases "clientPost c e uri body")
  show ?case
  proof (cases o1)
    case (Panic msg)
    with Request.prems p show ?thesis by simp
  next
    case (Ret resp)
    with Request.prems p have "runDownload (k resp) c2 e2 = (Ret r, c1, e1)"
      by simp
    then have "mayReturn (k resp) r"
      by (rule Request.IH [OF rangeI])
    then show ?thesis by auto
  qed
qed

lemma DownloadPage_mayReturn:
  assumes "DownloadPage NewNotionID dl c e pageID = (Ret (Inr p), c1, e1)"
  shows "mayReturn (dl pageID) (Inr p)"
proof (cases "NewNotionID pageID")
  case None
  with assms show ?thesis by (simp add: DownloadPage_def)
next
  case (Some nid)
  let ?c2 = "c\<lparr>currPageRequests := [], currPageID := Some nid,
               httpPostOverride := Some DoPostMaybeCached\<rparr>"
  obtain res c3 e3 where r: "runDownload (dl pageID) ?c2 e = (res, c3, e3)"
    by (cases "runDownload (dl pageID) ?c2 e")
  obtain w c4 e4 where w: "writeCacheForCurrPage c3 e3 = (w, c4, e4)"
    by (cases "writeCacheForCurrPage c3 e3")
  from assms Some r w have "res = Ret (Inr p)"
    by (cases w) (simp_all add: DownloadPage_def Let_def)
  with r show ?thesis
    using runDownload_mayReturn [of "dl pageID" ?c2 e "Inr p" c3 e3] by simp
qed

text \<open>
  C8. Let \<open>U\<close> be a finite set of no-dash ids that holds the start id and, for each of
  its ids, the sub-pages of every page its download can return (a finite
  page-reference graph, cyclic or not). Then \<open>DownloadPagesRecursively\<close> terminates, and
  it never calls \<open>DownloadPage\<close> twice with the same id. On success the ids it called
  \<open>DownloadPage\<close> with are exactly the ids reachable from the start, each paired with the
  page its download returned, and the result is the list of these pages in ascending
  order of their ids. The result is never nil on success, since the start page is
  always downloaded; \<open>sortedPages\<close> returns nil only for an empty map. The crawl fails
  only with the error of a page download or of the callback, and it does not panic.
\<close>

theorem crawl_visits_each_page_once:
  assumes "finite U" and "ToNoDashID startPageID \<in> U"
    and "\<forall>pid \<in> U. \<forall>p. mayReturn (clientDownloadPage pid) (Inr p) \<longrightarrow>
           (\<forall>x \<in> set (SubPages p). ToNoDashID x \<in> U)"
  shows "\<exists>out calls s1.
           DownloadPagesRecursively ToNoDashID NewNotionID clientDownloadPage s
             startPageID afterDownload = Some (out, calls, s1) \<and>
           distinct calls \<and>
           (\<forall>pages. out = Ret (Inr pages) \<longrightarrow>
              (\<exists>m ids. calls = map fst m \<and>
                 list_all (\<lambda>kp. mayReturn (clientDownloadPage (fst kp)) (Inr (snd kp))) m \<and>
                 set calls = reachable ToNoDashID m startPageID \<and>
                 sorted ids \<and> distinct ids \<and> set ids = set calls \<and>
                 pages = sortedPages m \<and> pages = Some (map (map_of m) ids) \<and>
                 list_all (\<lambda>pg. pg \<noteq> None) (map (map_of m) ids))) \<and>
           (\<forall>err. out = Ret (Inl err) \<longrightarrow>
              (\<exists>pid c e c1 e1.
                 DownloadPage NewNotionID clientDownloadPage c e pid = (Ret (Inl err), c1, e1)) \<or>
              (\<exists>f p. afterDownload = Some f \<and> f p = Some err)) \<and>
           (\<forall>msg. out \<noteq> Panic msg)"
proof -
  define download where
    "download = (\<lambda>pageID (c, e). DownloadPage NewNotionID clientDownloadPage c e pageID)"
  have ret: "mayReturn (clientDownloadPage pid) (Inr p)"
    if "download pid s0 = (Ret (Inr p), s1)" for pid s0 p s1
    using that DownloadPage_mayReturn [of NewNotionID clientDownloadPage "fst s0" "snd s0" pid p
        "fst s1" "snd s1"]
    by (simp add: download_def case_prod_unfold)
  have closed: "ToNoDashID x \<in> U"
    if "pid \<in> U" "download pid s0 = (Ret (Inr p), s1)" "x \<in> set (SubPages p)" for pid s0 p s1 x
    using that assms(3) ret by blast
  have "\<exists>out calls s1.
           DownloadPagesRecursivelyWith ToNoDashID download s startPageID afterDownload
             = Some (out, calls, s1) \<and>
           distinct calls \<and> failureCause download afterDownload out \<and>
           (\<forall>pages. out = Ret (Inr pages) \<longrightarrow>
              (\<exists>m ids. calls = map fst m \<and> list_all (returned download) m \<and>
                 set calls = reachable ToNoDashID m startPageID \<and>
                 sorted ids \<and> distinct ids \<and> set ids = set calls \<and>
                 pages = sortedPages m \<and> pages = Some (map (map_of m) ids) \<and>
                 list_all (\<lambda>pg. pg \<noteq> None) (map (map_of m) ids)))"
    using assms(1,2) closed by (rule DownloadPagesRecursivelyWith_total)
  then obtain out calls s1 where
    run: "DownloadPagesRecursivelyWith ToNoDashID download s startPageID afterDownload
          = Some (out, calls, s1)"
    and dist: "distinct calls"
    and fc: "failureCause download afterDownload out"
    and post: "\<forall>pages. out = Ret (Inr pages) \<longrightarrow>
              (\<exists>m ids. calls = map fst m \<and> list_all (returned download) m \<and>
                 set calls = reachable ToNoDashID m startPageID \<and>
                 sorted ids \<and> distinct ids \<and> set ids = set calls \<and>
                 pages = sortedPages m \<and> pages = Some (map (map_of m) ids) \<and>
                 list_all (\<lambda>pg. pg \<noteq> None) (map (map_of m) ids))"
    by blast
  have weaken: "list_all (\<lambda>kp. mayReturn (clientDownloadPage (fst kp)) (Inr (snd kp))) m"
    if "list_all (returned download) m" for m
    using that ret unfolding list_all_iff returned_def by blast
  have success: "\<forall>pages. out = Ret (Inr pages) \<longrightarrow>
              (\<exists>m ids. calls = map fst m \<and>
                 list_all (\<lambda>kp. mayReturn (clientDownloadPage (fst kp)) (Inr (snd kp))) m \<and>
                 set calls = reachable ToNoDashID m startPageID \<and>
                 sorted ids \<and> distinct ids \<and> set ids = set calls \<and>
                 pages = sortedPages m \<and> pages = Some (map (map_of m) ids) \<and>
                 list_all (\<lambda>pg. pg \<noteq> None) (map (map_of m) ids))"
    using post weaken by blast
  have never: "download pid s0 \<noteq> (Panic msg, s2)" for pid s0 msg s2
    using DownloadPage_returns [of NewNotionID clientDownloadPage "fst s0" "snd s0" pid]
    by (auto simp: download_def case_prod_unfold)
  have nopanic: "\<forall>msg. out \<noteq> Panic msg"
    using fc never by (auto simp: failureCause_def)
  have failure: "\<forall>err. out = Ret (Inl err) \<longrightarrow>
              (\<exists>pid c e c1 e1.
                 DownloadPage NewNotionID clientDownloadPage c e pid = (Ret (Inl err), c1, e1)) \<or>
              (\<exists>f p. afterDownload = Some f \<and> f p = Some err)"
  proof (intro allI impI)
    fix err
    assume "out = Ret (Inl err)"
    with fc consider pid s0 s2 where "download pid s0 = (Ret (Inl err), s2)"
      | f p where "afterDownload = Some f" "f p = Some err"
      by (auto simp: failureCause_def)
    then show "(\<exists>pid c e c1 e1.
                 DownloadPage NewNotionID clientDownloadPage c e pid = (Ret (Inl err), c1, e1)) \<or>
              (\<exists>f p. afterDownload = Some f \<and> f p = Some err)"
    proof cases
      case 1
      then have "DownloadPage NewNotionID clientDownloadPage (fst s0) (snd s0) pid
                 = (Ret (Inl err), fst s2, snd s2)"
        by (simp add: download_def case_prod_unfold)
      then show ?thesis by blast
    next
      case 2
      then show ?thesis by blast
    qed
  qed
  from run dist success failure nopanic show ?thesis
    unfolding DownloadPagesRecursively_def download_def by blast
qed

lemma cycle_run:
  "(case DownloadPagesRecursively ToNoDashID_spec NewNotionID_spec cyclePages
         (demoClient, demoEnv) idA None of
      None \<Rightarrow> False
    | Some (out, calls, c, e) \<Rightarrow>
        out = Ret (Inr (Some [Some (pageOf idA), Some (pageOf idB)])) \<and> calls = [idA, idB] \<and>
        RequestsNotFromCache c = 2)"
  by code_simp


lemma cycle_ids:
  "ToNoDashID_spec idA = idA" "ToNoDashID_spec ''bbbbbbbb-bbbb-bbbb-bbbb-bbbbbbbbbbbb'' = idB"
  by code_simp+

lemma cycle_closed:
  "\<forall>pid \<in> {idA, idB}. \<forall>p. mayReturn (cyclePages pid) (Inr p) \<longrightarrow>
     (\<forall>x \<in> set (SubPages p). ToNoDashID_spec x \<in> {idA, idB})"
proof (intro ballI allI impI)
  fix pid p x
  assume pid: "pid \<in> {idA, idB}" and r: "mayReturn (cyclePages pid) (Inr p)"
    and x: "x \<in> set (SubPages p)"
  from r obtain resp :: "error + bytes"
    where "(case resp of Inl err \<Rightarrow> Inl err | Inr d \<Rightarrow> Inr (pageOf pid)) = Inr p"
    by (auto simp: cyclePages_def)
  then have "p = pageOf pid"
    by (cases resp) simp_all
  with pid x have "x = ''bbbbbbbb-bbbb-bbbb-bbbb-bbbbbbbbbbbb'' \<or> x = idA"
    by (auto simp: pageOf_def split: if_splits)
  then show "ToNoDashID_spec x \<in> {idA, idB}"
    using cycle_ids by auto
qed

theorem crawl_visits_each_page_once_witness:
  "(\<exists>out calls s1.
      DownloadPagesRecursively ToNoDashID_spec NewNotionID_spec cyclePages
        (demoClient, demoEnv) idA None = Some (out, calls, s1) \<and>
      distinct calls \<and>
      (\<forall>pages. out = Ret (Inr pages) \<longrightarrow>
         (\<exists>m ids. calls = map fst m \<and>
            list_all (\<lambda>kp. mayReturn (cyclePages (fst kp)) (Inr (snd kp))) m \<and>
            set calls = reachable ToNoDashID_spec m idA \<and>
            sorted ids \<and> distinct ids \<and> set ids = set calls \<and>
            pages = sortedPages m \<and> pages = Some (map (map_of m) ids) \<and>
            list_all (\<lambda>pg. pg \<noteq> None) (map (map_of m) ids))) \<and>
      (\<forall>err. out = Ret (Inl err) \<longrightarrow>
         (\<exists>pid c e c1 e1.
            DownloadPage NewNotionID_spec cyclePages c e pid = (Ret (Inl err), c1, e1)) \<or>
         (\<exists>f p. (None :: (Page \<Rightarrow> error option) option) = Some f \<and> f p = Some err)) \<and>
      (\<forall>msg. out \<noteq> Panic msg))
   \<and> (case DownloadPagesRecursively ToNoDashID_spec NewNotionID_spec cyclePages
         (demoClient, demoEnv) idA None of
        None \<Rightarrow> False
      | Some (out, calls, c, e) \<Rightarrow>
          out = Ret (Inr (Some [Some (pageOf idA), Some (pageOf idB)])) \<and> calls = [idA, idB] \<and>
          RequestsNotFromCache c = 2)"
proof -
  have "finite {idA, idB}" and "ToNoDashID_spec idA \<in> {idA, idB}"
    using cycle_ids by simp_all
  from crawl_visits_each_page_once [OF this cycle_closed,
      of NewNotionID_spec "(demoClient, demoEnv)" None]
  show ?thesis
    using cycle_run by blast
qed

end
